theory Spec2Isabelle
  imports
    Main
    "HOL-Library.Char_ord"
    "HOL-Library.List_Lexorder"
    "HOL-Library.Product_Lexorder"
    "HOL-Library.Multiset"
begin

section \<open>Constants shared by \<open>common.py\<close> and \<open>generate.py\<close>\<close>

definition LAYER_LIMIT_PER_PAD :: nat where
  "LAYER_LIMIT_PER_PAD = 8"

section \<open>Errors\<close>

text \<open>The exceptions the modelled functions can raise.\<close>

datatype py_error = ValueError | IndexError

text \<open>A loop whose body can raise: the first exception ends it.\<close>

primrec fold_err :: "('a \<Rightarrow> 's \<Rightarrow> py_error + 's) \<Rightarrow> 'a list \<Rightarrow> 's \<Rightarrow> py_error + 's" where
  "fold_err f [] s = Inr s"
| "fold_err f (x # xs) s = (case f x s of Inl e \<Rightarrow> Inl e | Inr s' \<Rightarrow> fold_err f xs s')"

section \<open>Decimal output\<close>

definition digit_char :: "nat \<Rightarrow> char" where
  "digit_char d = char_of (48 + d)"

text \<open>\<open>str(n)\<close> for an integer.\<close>

function str_nat :: "nat \<Rightarrow> string" where
  "str_nat n = (if n < 10 then [digit_char n] else str_nat (n div 10) @ [digit_char (n mod 10)])"
  by pat_completeness auto
termination
  by (relation "measure (\<lambda>n. n)") auto

declare str_nat.simps [simp del]

definition str_int :: "int \<Rightarrow> string" where
  "str_int i = (if i < 0 then ''-'' @ str_nat (nat (- i)) else str_nat (nat i))"

text \<open>
  \<open>float_str(n)\<close> is \<open>f"{float(n):.1f}"\<close>: for an integer of magnitude below \<open>2^53\<close>
  (every MIDI note and velocity is), the conversion to float is exact and the result is
  the decimal numeral followed by \<open>.0\<close>.
\<close>

definition float_str :: "int \<Rightarrow> string" where
  "float_str n = str_int n @ ''.0''"

section \<open>Python strings\<close>

text \<open>
  A Python \<open>str\<close> is modelled as the list of its code points, for code points below 256
  (the type \<open>char\<close>). \<open>is_space\<close> is \<open>str.isspace\<close> on one such code point; it is the
  class that \<open>str.strip()\<close> and the pattern \<open>\s\<close> of \<open>re\<close> use for whitespace.
\<close>

definition is_space :: "char \<Rightarrow> bool" where
  "is_space c \<longleftrightarrow>
     (let k = (of_char c :: nat)
      in (9 \<le> k \<and> k \<le> 13) \<or> (28 \<le> k \<and> k \<le> 32) \<or> k = 133 \<or> k = 160)"

text \<open>\<open>s.strip()\<close>.\<close>

definition strip :: "string \<Rightarrow> string" where
  "strip s = rev (dropWhile is_space (rev (dropWhile is_space s)))"

text \<open>
  \<open>re.sub(r"[...]+", repl, s)\<close> for a character class \<open>P\<close>: every maximal run of
  characters of the class is replaced by \<open>repl\<close>.
\<close>

function re_sub_runs :: "(char \<Rightarrow> bool) \<Rightarrow> string \<Rightarrow> string \<Rightarrow> string" where
  "re_sub_runs P repl [] = []"
| "re_sub_runs P repl (c # cs) =
     (if P c then repl @ re_sub_runs P repl (dropWhile P cs)
      else c # re_sub_runs P repl cs)"
  by pat_completeness auto
termination
  by (relation "measure (\<lambda>(P, repl, s). length s)")
     (auto simp: length_dropWhile_le less_Suc_eq_le)

text \<open>\<open>s.startswith(p)\<close>.\<close>

definition starts_with :: "string \<Rightarrow> string \<Rightarrow> bool" where
  "starts_with p s \<longleftrightarrow> take (length p) s = p"

section \<open>Python dictionaries\<close>

text \<open>
  A \<open>dict\<close> is an association list with distinct keys, in insertion order (the order
  \<open>items()\<close> and \<open>values()\<close> iterate in). \<open>dict_set\<close> is \<open>d[k] = v\<close>: it replaces the
  value of a present key in place and appends an absent one. \<open>dict_get\<close> is
  \<open>d.get(k, default)\<close>.
\<close>

fun dict_set :: "'k \<Rightarrow> 'v \<Rightarrow> ('k \<times> 'v) list \<Rightarrow> ('k \<times> 'v) list" where
  "dict_set k v [] = [(k, v)]"
| "dict_set k v (p # ps) = (if fst p = k then (k, v) # ps else p # dict_set k v ps)"

definition dict_get :: "('k \<times> 'v) list \<Rightarrow> 'k \<Rightarrow> 'v \<Rightarrow> 'v" where
  "dict_get d k dflt = (case map_of d k of None \<Rightarrow> dflt | Some v \<Rightarrow> v)"

section \<open>Sample ordering (\<open>common.py\<close>)\<close>

text \<open>\<open>str.lower()\<close> on code points below 256.\<close>

definition lower_char :: "char \<Rightarrow> char" where
  "lower_char c =
     (let k = (of_char c :: nat)
      in if (65 \<le> k \<and> k \<le> 90) \<or> (192 \<le> k \<and> k \<le> 222 \<and> k \<noteq> 215)
         then char_of (k + 32) else c)"

definition lower :: "string \<Rightarrow> string" where
  "lower s = map lower_char s"

text \<open>
  \<open>s.split(c)\<close> for a one-character separator. The result is never the empty list, so
  the last case of the second equation is never taken.
\<close>

fun split_on :: "char \<Rightarrow> string \<Rightarrow> string list" where
  "split_on c [] = [[]]"
| "split_on c (x # xs) =
     (if x = c then [] # split_on c xs
      else (case split_on c xs of
              w # ws \<Rightarrow> (x # w) # ws
            | [] \<Rightarrow> [[x]]))"

text \<open>
  \<open>Path(p).stem\<close> for POSIX paths: the name is the last component of the path, empty
  components and \<open>.\<close> components aside; the stem is the name without its last suffix,
  where a dot that starts or ends the name begins no suffix (pathlib up to Python 3.13;
  later versions differ on a name that ends in a dot, which no scanned audio file has).
\<close>

definition path_name :: "string \<Rightarrow> string" where
  "path_name p =
     (let parts = filter (\<lambda>c. c \<noteq> [] \<and> c \<noteq> ''.'') (split_on (CHR ''/'') p)
      in if parts = [] then [] else last parts)"

text \<open>\<open>s.rfind(c)\<close>: the last index of \<open>c\<close>, or \<open>-1\<close>.\<close>

definition rfind :: "char \<Rightarrow> string \<Rightarrow> int" where
  "rfind c s =
     (if c \<in> set s then int (length s) - 1 - int (length (takeWhile (\<lambda>x. x \<noteq> c) (rev s)))
      else - 1)"

definition path_stem :: "string \<Rightarrow> string" where
  "path_stem p =
     (let name = path_name p; i = rfind (CHR ''.'') name
      in if 0 < i \<and> i < int (length name) - 1 then take (nat i) name else name)"

definition is_digit :: "char \<Rightarrow> bool" where
  "is_digit c \<longleftrightarrow> (let k = (of_char c :: nat) in 48 \<le> k \<and> k \<le> 57)"

text \<open>\<open>int(s)\<close> on a non-empty string of decimal digits.\<close>

definition int_of_digits :: "string \<Rightarrow> int" where
  "int_of_digits s = foldl (\<lambda>a c. 10 * a + (int (of_char c) - 48)) 0 s"

text \<open>
  \<open>extract_trailing_index\<close>: \<open>re.search(r"\s(\d+)$", stem)\<close>. \<open>$\<close> matches at the end of
  the string and also just before a newline that ends it, so the digits are looked for
  at the end of \<open>body\<close>. The whitespace character of the match is the one just before
  the maximal run of digits that ends \<open>body\<close>, so there is at most one match.
\<close>

definition extract_trailing_index :: "string \<Rightarrow> int option" where
  "extract_trailing_index stem =
     (let body = (if stem \<noteq> [] \<and> last stem = CHR 0x0A then butlast stem else stem);
          ds = takeWhile is_digit (rev body);
          rest = dropWhile is_digit (rev body)
      in if ds \<noteq> [] \<and> rest \<noteq> [] \<and> is_space (hd rest) then Some (int_of_digits (rev ds))
         else None)"

text \<open>
  The sort key of the source is the tuple \<open>(0, idx)\<close> for a file with a trailing index
  and \<open>(1, stem.lower())\<close> for one without. Two such tuples are compared on their first
  components and, when these are equal, on their second components, which then have the
  same type. The key is written here as a triple that carries both kinds of second
  component, the unused one at a fixed value: the lexicographic order on the triples is
  the order of the tuples. Strings compare by code points, a proper prefix first.
\<close>

type_synonym sort_key = "nat \<times> int \<times> string"

definition key :: "string \<Rightarrow> sort_key" where
  "key p =
     (let stem = path_stem p
      in case extract_trailing_index stem of
           Some idx \<Rightarrow> (0, idx, [])
         | None \<Rightarrow> (1, 0, lower stem))"

text \<open>\<open>sorted(paths, key=key)\<close>: Python's sort is stable, as is \<open>sort_key\<close>.\<close>

definition sort_samples_by_trailing_number :: "string list \<Rightarrow> string list" where
  "sort_samples_by_trailing_number paths = sort_key key paths"

text \<open>The trailing index of a file: that of its stem.\<close>

definition sample_index :: "string \<Rightarrow> int option" where
  "sample_index p = extract_trailing_index (path_stem p)"

text \<open>
  The ordering as the specification words it (section 4.3): the trailing index is the
  primary key and the lower-cased base name the secondary key, files without an index
  after all files with one. \<open>ordering_rule_key\<close> is the key of that ordering; it is
  compared with the key of the source in the properties below.
\<close>

definition ordering_rule_key :: "string \<Rightarrow> sort_key" where
  "ordering_rule_key p =
     (case sample_index p of
        Some idx \<Rightarrow> (0, idx, lower (path_stem p))
      | None \<Rightarrow> (1, 0, lower (path_stem p)))"

section \<open>Kits and mapping (\<open>common.py\<close>)\<close>

record MappingEntry =
  canonical :: string
  synonyms :: "string list"
  midi_notes :: "int list option"

type_synonym mapping_table = "(string \<times> MappingEntry) list"

text \<open>The elements of a kit: category to file paths.\<close>

type_synonym elements = "(string \<times> string list) list"

record stats =
  total :: nat
  only_other :: bool
  mixed_other :: bool

definition kit_stats :: "elements \<Rightarrow> stats" where
  "kit_stats els =
     \<lparr> total = sum_list (map (\<lambda>(cat, files). length files) els),
       only_other = (''other'' \<in> fst ` set els \<and> length els = 1),
       mixed_other = (''other'' \<in> fst ` set els \<and> length els > 1) \<rparr>"

text \<open>
  \<open>category_capacity\<close>. A \<open>MappingEntry\<close> is always truthy, so \<open>not entry\<close> holds only
  for a category the mapping lacks.
\<close>

definition category_capacity :: "mapping_table \<Rightarrow> string \<Rightarrow> nat option" where
  "category_capacity mapping category =
     (case map_of mapping category of
        None \<Rightarrow> None
      | Some entry \<Rightarrow>
          (case midi_notes entry of
             None \<Rightarrow> None
           | Some notes \<Rightarrow> Some (length notes * LAYER_LIMIT_PER_PAD)))"

section \<open>Parsing integers and note lists (\<open>common.py\<close>)\<close>

text \<open>
  The digits of an integer literal as \<open>int()\<close> accepts them: at least one digit, and single
  underscores between digits.
\<close>

fun digits_ok :: "string \<Rightarrow> bool" where
  "digits_ok [] = False"
| "digits_ok [c] = is_digit c"
| "digits_ok (c # d # r) =
     (is_digit c \<and>
      (if d = CHR ''_'' then (case r of [] \<Rightarrow> False | _ \<Rightarrow> digits_ok r)
       else digits_ok (d # r)))"

text \<open>
  The whitespace \<open>int()\<close> accepts around a literal. \<open>int\<close> turns the whitespace beyond
  ASCII into spaces and then skips ASCII whitespace, which is the tab to carriage return
  range and the space; unlike \<open>str.strip()\<close> it does not skip the separators U+001C to
  U+001F, and a literal next to one of them raises \<open>ValueError\<close>.
\<close>

definition is_int_space :: "char \<Rightarrow> bool" where
  "is_int_space c \<longleftrightarrow>
     (let k = (of_char c :: nat)
      in (9 \<le> k \<and> k \<le> 13) \<or> k = 32 \<or> k = 133 \<or> k = 160)"

definition int_strip :: "string \<Rightarrow> string" where
  "int_strip s = rev (dropWhile is_int_space (rev (dropWhile is_int_space s)))"

text \<open>
  \<open>int(s)\<close> for a string: surrounding whitespace is dropped, one sign is allowed, and
  anything else than a decimal literal raises \<open>ValueError\<close>. (The interpreter also
  refuses a literal of more than 4300 digits; the model has no such limit, so it returns
  a value wherever \<open>int\<close> does.)
\<close>

definition py_int :: "string \<Rightarrow> py_error + int" where
  "py_int s =
     (let t = int_strip s;
          neg = (t \<noteq> [] \<and> hd t = CHR ''-'');
          body = (if t \<noteq> [] \<and> (hd t = CHR ''-'' \<or> hd t = CHR ''+'') then tl t else t)
      in if digits_ok body
         then Inr ((if neg then - 1 else 1) * int_of_digits (filter (\<lambda>c. c \<noteq> CHR ''_'') body))
         else Inl ValueError)"

text \<open>A list comprehension whose element expression can raise.\<close>

fun map_err :: "('a \<Rightarrow> py_error + 'b) \<Rightarrow> 'a list \<Rightarrow> py_error + 'b list" where
  "map_err f [] = Inr []"
| "map_err f (x # xs) =
     (case f x of
        Inl e \<Rightarrow> Inl e
      | Inr y \<Rightarrow> (case map_err f xs of Inl e \<Rightarrow> Inl e | Inr ys \<Rightarrow> Inr (y # ys)))"

text \<open>\<open>[x.strip() for x in s.split(sep) if x.strip()]\<close>.\<close>

definition stripped_parts :: "char \<Rightarrow> string \<Rightarrow> string list" where
  "stripped_parts sep s = filter (\<lambda>x. x \<noteq> []) (map strip (split_on sep s))"

text \<open>\<open>s.split(sep, 1)\<close> for a string that contains \<open>sep\<close>: the two sides of the first one.\<close>

definition split_first :: "char \<Rightarrow> string \<Rightarrow> string \<times> string" where
  "split_first sep s = (takeWhile (\<lambda>c. c \<noteq> sep) s, tl (dropWhile (\<lambda>c. c \<noteq> sep) s))"

text \<open>
  \<open>parse_midi_note_list\<close>. \<open>parse_note_part\<close> is the body of its loop: the notes one
  part adds to the set, \<open>range(int(start), int(end) + 1)\<close> or the single \<open>int(part)\<close>.
\<close>

definition parse_note_part :: "string \<Rightarrow> py_error + int list" where
  "parse_note_part part =
     (if CHR ''-'' \<in> set part then
        (let (start, end) = split_first (CHR ''-'') part
         in case py_int start of
              Inl e \<Rightarrow> Inl e
            | Inr a \<Rightarrow> (case py_int end of Inl e \<Rightarrow> Inl e | Inr b \<Rightarrow> Inr [a .. b]))
      else (case py_int part of Inl e \<Rightarrow> Inl e | Inr n \<Rightarrow> Inr [n]))"

definition add_note_part :: "string \<Rightarrow> int set \<Rightarrow> py_error + int set" where
  "add_note_part part notes =
     (case parse_note_part part of Inl e \<Rightarrow> Inl e | Inr ns \<Rightarrow> Inr (notes \<union> set ns))"

definition parse_midi_note_list :: "string \<Rightarrow> py_error + int list" where
  "parse_midi_note_list spec =
     (case fold_err add_note_part (stripped_parts (CHR '','') spec) {} of
        Inl e \<Rightarrow> Inl e
      | Inr notes \<Rightarrow> Inr (sorted_list_of_set notes))"

section \<open>Parsing the mapping file (\<open>common.py\<close>, \<open>parse_mapping_file\<close>)\<close>

text \<open>
  One line of the file: \<open>None\<close> for a blank or comment line, the entry otherwise.
  \<open>synonyms[0]\<close> raises \<open>IndexError\<close> when the left side has no name, before the notes
  are read.
\<close>

definition parse_mapping_line :: "string \<Rightarrow> py_error + MappingEntry option" where
  "parse_mapping_line raw =
     (let line = strip raw
      in if line = [] \<or> starts_with ''#'' line then Inr None
         else
           (let (left, right) =
                  (if CHR '':'' \<in> set line
                   then (lower (strip (fst (split_first (CHR '':'') line))),
                         Some (strip (snd (split_first (CHR '':'') line))))
                   else (lower (strip line), None));
                syns = stripped_parts (CHR ''/'') left
            in if syns = [] then Inl IndexError
               else
                 (case right of
                    None \<Rightarrow>
                      Inr (Some \<lparr> canonical = hd syns, synonyms = syns, midi_notes = None \<rparr>)
                  | Some r \<Rightarrow>
                      if r = [] then
                        Inr (Some \<lparr> canonical = hd syns, synonyms = syns, midi_notes = Some [] \<rparr>)
                      else
                        (case map_err py_int (stripped_parts (CHR '','') r) of
                           Inl e \<Rightarrow> Inl e
                         | Inr notes \<Rightarrow>
                             Inr (Some \<lparr> canonical = hd syns, synonyms = syns,
                                         midi_notes = Some notes \<rparr>)))))"

definition add_mapping_line :: "string \<Rightarrow> mapping_table \<Rightarrow> py_error + mapping_table" where
  "add_mapping_line raw m =
     (case parse_mapping_line raw of
        Inl e \<Rightarrow> Inl e
      | Inr None \<Rightarrow> Inr m
      | Inr (Some entry) \<Rightarrow> Inr (dict_set (canonical entry) entry m))"

text \<open>\<open>parse_mapping_file\<close>, on the lines of the file.\<close>

definition parse_mapping_file :: "string list \<Rightarrow> py_error + mapping_table" where
  "parse_mapping_file lines = fold_err add_mapping_line lines []"

text \<open>
  The note tokens of a mapping line that has a colon: the stripped, non-empty parts of its
  right side, as \<open>parse_mapping_line\<close> reads them.
\<close>

definition note_tokens :: "string \<Rightarrow> string list" where
  "note_tokens raw = stripped_parts (CHR '','') (strip (snd (split_first (CHR '':'') (strip raw))))"

section \<open>Filtering (\<open>common.py\<close>, \<open>filter_kits\<close>)\<close>

record overflow_entry =
  category :: string
  count :: nat
  capacity :: nat

text \<open>The \<open>details\<close> dictionary: a key the source did not set is \<open>None\<close>.\<close>

record details =
  trash_needed :: "int option"
  trash_capacity :: "int option"
  overflow :: "overflow_entry list option"
  other_count :: "nat option"

record rejection =
  reason :: string
  rej_details :: details
  rej_elements :: elements

text \<open>The configuration of \<open>filter_kits\<close>: its keyword arguments.\<close>

record filter_config =
  min_total_samples :: int
  exclude_only_other :: bool
  exclude_mixed_other :: bool
  mapping :: "mapping_table option"
  overflow_policy :: string
  trash_notes :: "int list option"

text \<open>The threshold checks: the \<open>if\<close>/\<open>elif\<close> chain at the head of the loop body.\<close>

definition threshold_reason :: "filter_config \<Rightarrow> elements \<Rightarrow> string option" where
  "threshold_reason cfg els =
     (let st = kit_stats els
      in if int (total st) < min_total_samples cfg then Some ''too_few_samples''
         else if exclude_only_other cfg \<and> only_other st then Some ''only_other''
         else if exclude_mixed_other cfg \<and> mixed_other st then Some ''mixed_other''
         else None)"

text \<open>
  \<open>overflow_info\<close>: the loop under \<open>if mapping:\<close>, which an absent or empty mapping
  skips.
\<close>

definition overflow_of :: "mapping_table \<Rightarrow> string \<times> string list \<Rightarrow> overflow_entry list" where
  "overflow_of m item =
     (let cat = fst item; files = snd item
      in if cat = ''other'' then []
         else (case category_capacity m cat of
                 None \<Rightarrow> []
               | Some cap \<Rightarrow>
                   if length files > cap
                   then [\<lparr> category = cat, count = length files, capacity = cap \<rparr>]
                   else []))"

definition overflow_info :: "filter_config \<Rightarrow> elements \<Rightarrow> overflow_entry list" where
  "overflow_info cfg els =
     (case mapping cfg of
        None \<Rightarrow> []
      | Some m \<Rightarrow> if m = [] then [] else concat (map (overflow_of m) els))"

definition kit_other_count :: "elements \<Rightarrow> nat" where
  "kit_other_count els = length (dict_get els ''other'' [])"

definition total_trash_needed :: "filter_config \<Rightarrow> elements \<Rightarrow> int" where
  "total_trash_needed cfg els =
     fold (\<lambda>info acc. acc + (int (count info) - int (capacity info))) (overflow_info cfg els) 0
     + int (kit_other_count els)"

definition trash_capacity_of :: "filter_config \<Rightarrow> int" where
  "trash_capacity_of cfg =
     (case trash_notes cfg of
        None \<Rightarrow> 0
      | Some notes \<Rightarrow> if notes = [] then 0 else int (length notes * LAYER_LIMIT_PER_PAD))"

text \<open>The reason and the details the loop body reaches for one kit.\<close>

definition kit_verdict :: "filter_config \<Rightarrow> elements \<Rightarrow> string option \<times> details" where
  "kit_verdict cfg els =
     (let reason0 = threshold_reason cfg els;
          details0 = \<lparr> trash_needed = None, trash_capacity = None,
                       overflow = None, other_count = None \<rparr>;
          info = overflow_info cfg els;
          others = kit_other_count els
      in if info \<noteq> [] \<or> others \<noteq> 0 then
           (let needed = total_trash_needed cfg els;
                cap = trash_capacity_of cfg;
                (reason1, details1) =
                   (if overflow_policy cfg = ''reject'' then (Some ''overflow_or_other'', details0)
                    else if overflow_policy cfg = ''trash'' then
                      (if needed > cap
                       then (Some ''trash_zone_insufficient'',
                             details0 \<lparr> trash_needed := Some needed, trash_capacity := Some cap \<rparr>)
                       else (reason0, details0))
                    else (reason0, details0))
            in (reason1, details1 \<lparr> overflow := Some info, other_count := Some others \<rparr>))
         else (reason0, details0))"

definition sort_elements :: "elements \<Rightarrow> elements" where
  "sort_elements els = map (\<lambda>(cat, files). (cat, sort_samples_by_trailing_number files)) els"

text \<open>
  One turn of the loop over \<open>kits.items()\<close>. Every reason the body can set is a
  non-empty string, so \<open>if reason:\<close> tests that one was set.
\<close>

definition filter_step ::
  "filter_config \<Rightarrow> string \<times> elements \<Rightarrow>
   (string \<times> elements) list \<times> (string \<times> rejection) list \<Rightarrow>
   (string \<times> elements) list \<times> (string \<times> rejection) list" where
  "filter_step cfg kit acc =
     (let kit_name = fst kit; els = snd kit; valid = fst acc; rejected = snd acc
      in case kit_verdict cfg els of
           (Some r, d) \<Rightarrow>
             (valid,
              dict_set kit_name \<lparr> reason = r, rej_details = d, rej_elements = els \<rparr> rejected)
         | (None, d) \<Rightarrow> (dict_set kit_name (sort_elements els) valid, rejected))"

definition filter_kits ::
  "filter_config \<Rightarrow> (string \<times> elements) list \<Rightarrow>
   (string \<times> elements) list \<times> (string \<times> rejection) list" where
  "filter_kits cfg kits = fold (filter_step cfg) kits ([], [])"

section \<open>File names (\<open>generate.py\<close>, \<open>sanitize_filename\<close>)\<close>

text \<open>The class \<open>[\\/:\*\?\"<>\|]\<close> of the source's first substitution.\<close>

definition is_forbidden :: "char \<Rightarrow> bool" where
  "is_forbidden c \<longleftrightarrow>
     c \<in> {CHR 0x5C, CHR ''/'', CHR '':'', CHR ''*'', CHR ''?'', CHR 0x22, CHR ''<'', CHR ''>'', CHR ''|''}"

definition sanitize_filename :: "string \<Rightarrow> string" where
  "sanitize_filename name =
     (let name1 = strip name;
          name2 = re_sub_runs is_forbidden ''_'' name1;
          name3 = strip (re_sub_runs is_space '' '' name2)
      in if name3 = [] then ''UNTITLED'' else name3)"

text \<open>
  A string in which every whitespace character is a single space that no further
  whitespace follows.
\<close>

fun single_spaced :: "string \<Rightarrow> bool" where
  "single_spaced [] = True"
| "single_spaced [c] = (\<not> is_space c \<or> c = CHR '' '')"
| "single_spaced (c # d # r) =
     ((\<not> is_space c \<or> (c = CHR '' '' \<and> \<not> is_space d)) \<and> single_spaced (d # r))"

text \<open>
  The words of a string, as \<open>s.split()\<close> gives them: its maximal runs of characters
  that are not whitespace; and the words joined by single spaces, \<open>" ".join(ws)\<close>.
  The result of \<open>sanitize_filename\<close> is compared with them in the properties below.
\<close>

function words_of :: "string \<Rightarrow> string list" where
  "words_of [] = []"
| "words_of (c # cs) =
     (if is_space c then words_of cs
      else (c # takeWhile (\<lambda>x. \<not> is_space x) cs) # words_of (dropWhile (\<lambda>x. \<not> is_space x) cs))"
  by pat_completeness auto
termination
  by (relation "measure length") (auto simp: length_dropWhile_le less_Suc_eq_le)

fun unwords :: "string list \<Rightarrow> string" where
  "unwords [] = []"
| "unwords [w] = w"
| "unwords (w # v # ws) = w @ '' '' @ unwords (v # ws)"

text \<open>The string without its trailing whitespace, \<open>s.rstrip()\<close>.\<close>

definition rstrip :: "string \<Rightarrow> string" where
  "rstrip s = rev (dropWhile is_space (rev s))"

section \<open>Velocity bands (\<open>generate.py\<close>, \<open>velocity_ranges\<close>)\<close>

text \<open>
  The source computes \<open>math.floor(i * 127 / n_layers)\<close> with Python's true division.
  Both operands are integers; the quotient of two integers below \<open>2^53\<close> is rounded
  correctly and lies at distance at least \<open>1 / n_layers\<close> from the next integer unless it
  is one, so its floor is the integer quotient \<open>div\<close> for every layer count the program
  can reach (\<open>set_pad_layers\<close> caps it at 8).
\<close>

definition velocity_band :: "int \<Rightarrow> int \<Rightarrow> int \<times> int" where
  "velocity_band n_layers i =
     (let start = (i * 127) div n_layers + 1;
          end0 = ((i + 1) * 127) div n_layers;
          end1 = (if i = n_layers - 1 then 127 else end0)
      in (start, end1))"

text \<open>The second loop of the source, \<open>for i in range(1, len(ranges))\<close>, one step of it.\<close>

definition contiguous_step :: "nat \<Rightarrow> (int \<times> int) list \<Rightarrow> (int \<times> int) list" where
  "contiguous_step i ranges =
     (let prev_end = snd (ranges ! (i - 1));
          cur_start = fst (ranges ! i);
          cur_end = snd (ranges ! i)
      in if cur_start \<noteq> prev_end + 1 then ranges[i := (prev_end + 1, cur_end)] else ranges)"

definition ensure_contiguous :: "(int \<times> int) list \<Rightarrow> (int \<times> int) list" where
  "ensure_contiguous ranges = fold contiguous_step [1 ..< length ranges] ranges"

definition velocity_ranges :: "int \<Rightarrow> (int \<times> int) list" where
  "velocity_ranges n_layers =
     (if n_layers \<le> 0 then []
      else ensure_contiguous (map (\<lambda>i. velocity_band n_layers (int i)) [0 ..< nat n_layers]))"

section \<open>Pads and layers (\<open>generate.py\<close>)\<close>

text \<open>An XML element's attribute dictionary; \<open>Element.set\<close> is \<open>dict_set\<close>.\<close>

type_synonym attrib = "(string \<times> string) list"

text \<open>
  A \<open>pad\<close> element: its own attributes and the \<open>mapping\<close> children of its \<open>mappings\<close>
  child, each one an attribute dictionary.
\<close>

record pad =
  pad_attrib :: attrib
  mappings :: "attrib list"

definition TALDRUM_VERSION :: string where
  "TALDRUM_VERSION = ''13''"

definition make_pad :: "nat \<Rightarrow> int \<Rightarrow> pad" where
  "make_pad pad_index midi_note =
     \<lparr> pad_attrib =
         [(''version'', TALDRUM_VERSION),
          (''activemappings'', ''0''),
          (''colour'', ''0''),
          (''name'', ''Pad '' @ str_nat (pad_index + 1)),
          (''midikey'', float_str midi_note)],
       mappings = replicate LAYER_LIMIT_PER_PAD [(''path'', ''''), (''pathrelative'', '''')] \<rparr>"

text \<open>
  \<open>os.path\<close> on POSIX. The working directory of the process, \<open>os.getcwd()\<close>, is the
  parameter \<open>cwd\<close> (an absolute path). \<open>abs_parts cwd p\<close> is the list of the components
  of \<open>os.path.abspath(p)\<close>: the path is joined to the working directory unless it starts
  with a slash, and \<open>normpath\<close> drops empty and \<open>.\<close> components and lets \<open>..\<close> remove the
  component before it (at the root, \<open>..\<close> is dropped).
\<close>

definition norm_parts :: "string list \<Rightarrow> string list" where
  "norm_parts comps =
     foldl (\<lambda>acc c. if c = [] \<or> c = ''.'' then acc
                     else if c = ''..'' then butlast acc
                     else acc @ [c]) [] comps"

definition abs_parts :: "string \<Rightarrow> string \<Rightarrow> string list" where
  "abs_parts cwd p =
     norm_parts (split_on (CHR ''/'') (if starts_with ''/'' p then p else cwd @ ''/'' @ p))"

text \<open>\<open>len(os.path.commonprefix([xs, ys]))\<close> for two lists of components.\<close>

fun common_prefix_len :: "'a list \<Rightarrow> 'a list \<Rightarrow> nat" where
  "common_prefix_len (x # xs) (y # ys) = (if x = y then Suc (common_prefix_len xs ys) else 0)"
| "common_prefix_len _ _ = 0"

text \<open>\<open>os.path.join(*parts)\<close> for non-empty components without slashes.\<close>

fun join_parts :: "string list \<Rightarrow> string" where
  "join_parts [] = []"
| "join_parts [x] = x"
| "join_parts (x # xs) = x @ ''/'' @ join_parts xs"

text \<open>
  \<open>os.path.relpath(os.path.abspath(path), os.path.abspath(start))\<close>, as the two path
  functions of the source call it. The path it is given is never empty, so it does not
  raise.
\<close>

definition relpath :: "string \<Rightarrow> string \<Rightarrow> string \<Rightarrow> string" where
  "relpath cwd path start =
     (let start_list = abs_parts cwd start;
          path_list = abs_parts cwd path;
          i = common_prefix_len start_list path_list;
          rel_list = replicate (length start_list - i) ''..'' @ drop i path_list
      in if rel_list = [] then ''.'' else join_parts rel_list)"

definition backslash_to_slash :: "string \<Rightarrow> string" where
  "backslash_to_slash s = map (\<lambda>c. if c = CHR 0x5C then CHR ''/'' else c) s"

definition wav_to_pathrelative :: "string \<Rightarrow> string \<Rightarrow> string \<Rightarrow> py_error + string" where
  "wav_to_pathrelative cwd wav_path global_base =
     (let rel = relpath cwd wav_path global_base
      in if starts_with ''..'' rel then Inl ValueError else Inr (backslash_to_slash rel))"

definition wav_to_path_foldback :: "string \<Rightarrow> string \<Rightarrow> string \<Rightarrow> string" where
  "wav_to_path_foldback cwd wav_path preset_dir =
     backslash_to_slash (relpath cwd wav_path preset_dir)"

text \<open>
  One turn of the loop \<open>for i in range(n)\<close> of \<open>set_pad_layers\<close>, on the list of
  \<open>mapping\<close> elements. \<open>mappings[i]\<close> raises \<open>IndexError\<close> when the pad has fewer
  than \<open>i + 1\<close> slots, and it is read before the relative path is computed.
\<close>

definition set_layer ::
  "string \<Rightarrow> string list \<Rightarrow> string \<Rightarrow> string \<Rightarrow> nat \<Rightarrow>
   (int \<times> int) list \<Rightarrow> nat \<Rightarrow> attrib list \<Rightarrow> py_error + attrib list" where
  "set_layer cwd wav_paths preset_dir global_base n ranges i ms =
     (let wav = wav_paths ! i
      in if length ms \<le> i then Inl IndexError
         else
           (case wav_to_pathrelative cwd wav global_base of
              Inl e \<Rightarrow> Inl e
            | Inr rel \<Rightarrow>
                (let m0 = ms ! i;
                     m1 = dict_set ''pathrelative'' rel m0;
                     m2 = dict_set ''path'' (wav_to_path_foldback cwd wav preset_dir) m1;
                     vstart = fst (ranges ! i);
                     vend = snd (ranges ! i);
                     m3 = (if n = 1 then m2
                           else if i = 0 then dict_set ''velocityend'' (float_str vend) m2
                           else if i = n - 1 then dict_set ''velocitystart'' (float_str vstart) m2
                           else dict_set ''velocityend'' (float_str vend)
                                  (dict_set ''velocitystart'' (float_str vstart) m2))
                 in Inr (ms[i := m3]))))"

text \<open>
  \<open>set_pad_layers\<close>. The indices \<open>i < n\<close> are within \<open>wav_paths\<close> and within
  \<open>ranges\<close>, since \<open>n \<le> len(wav_paths)\<close> and \<open>velocity_ranges(n)\<close> has \<open>n\<close> entries.
  An exception leaves the element half written in the source; the model returns the
  exception alone.
\<close>

definition set_pad_layers ::
  "string \<Rightarrow> pad \<Rightarrow> string list \<Rightarrow> string \<Rightarrow> string \<Rightarrow> py_error + pad" where
  "set_pad_layers cwd pad_el wav_paths preset_dir global_base =
     (let n = min (length wav_paths) LAYER_LIMIT_PER_PAD;
          ranges = velocity_ranges (int n);
          cleared = map (\<lambda>m. [(''path'', ''''), (''pathrelative'', '''')]) (mappings pad_el)
      in case fold_err (set_layer cwd wav_paths preset_dir global_base n ranges) [0 ..< n] cleared of
           Inl e \<Rightarrow> Inl e
         | Inr ms \<Rightarrow>
             Inr (pad_el \<lparr> pad_attrib := dict_set ''activemappings'' (str_nat n) (pad_attrib pad_el),
                           mappings := ms \<rparr>))"

text \<open>The velocity attributes of a layer, as the serializer wrote them.\<close>

definition velocity_attrs :: "attrib \<Rightarrow> string option \<times> string option" where
  "velocity_attrs m = (map_of m ''velocitystart'', map_of m ''velocityend'')"

section \<open>Assignment of samples to notes (\<open>generate.py\<close>, \<open>assign_samples_to_notes\<close>)\<close>

text \<open>
  The variables the nested functions \<open>push\<close> and \<open>push_trash\<close> share with the body of
  \<open>assign_samples_to_notes\<close>: the dictionary from note to samples under construction, the
  trash pool and the warnings.
\<close>

record assign_state =
  note_to_samples :: "(int \<times> string list) list"
  trash_pool :: "int list"
  warnings :: "string list"

text \<open>\<open>note_to_samples.get(note, [])\<close>.\<close>

definition samples_at :: "assign_state \<Rightarrow> int \<Rightarrow> string list" where
  "samples_at st note = dict_get (note_to_samples st) note []"

text \<open>\<open>push\<close>: \<open>note_to_samples.setdefault(note, []).extend(samples)\<close>.\<close>

definition push :: "int \<Rightarrow> string list \<Rightarrow> assign_state \<Rightarrow> assign_state" where
  "push note samples st =
     st \<lparr> note_to_samples := dict_set note (samples_at st note @ samples) (note_to_samples st) \<rparr>"

text \<open>
  The \<open>while\<close> loop of \<open>push_trash\<close>; it returns the final \<open>idx\<close> with the state.
  \<open>samples[idx: idx + space]\<close> is \<open>take space (drop idx samples)\<close>. The loop ends: a turn
  either removes the first note of the pool or, since \<open>idx < len(samples)\<close> and
  \<open>space > 0\<close>, takes at least one sample.
\<close>

function push_trash_loop :: "string list \<Rightarrow> nat \<Rightarrow> assign_state \<Rightarrow> nat \<times> assign_state" where
  "push_trash_loop samples idx st =
     (if idx < length samples \<and> trash_pool st \<noteq> [] then
        (let note = hd (trash_pool st);
             cur = samples_at st note;
             space = int LAYER_LIMIT_PER_PAD - int (length cur)
         in if space \<le> 0 then
              push_trash_loop samples idx (st \<lparr> trash_pool := tl (trash_pool st) \<rparr>)
            else
              (let taken = take (nat space) (drop idx samples);
                   st1 = push note taken st;
                   st2 = (if length (samples_at st1 note) \<ge> LAYER_LIMIT_PER_PAD
                          then st1 \<lparr> trash_pool := tl (trash_pool st1) \<rparr> else st1)
               in push_trash_loop samples (idx + length taken) st2))
      else (idx, st))"
  by pat_completeness auto
termination
proof (relation "measure (\<lambda>(samples, idx, st). (length samples - idx) + length (trash_pool st))",
    goal_cases)
  case 1
  show ?case by simp
next
  case (2 samples idx st nt cur space)
  then have "trash_pool st \<noteq> []" and "idx < length samples" by simp_all
  then show ?case by (cases "trash_pool st") auto
next
  case (3 samples idx st nt cur space taken st1 st2)
  then have a: "idx < length samples" and b: "0 < space" by simp_all
  from a b 3 have c: "0 < length taken" by simp
  have d: "length taken \<le> length samples - idx" using 3 by simp
  have e: "length (trash_pool st2) \<le> length (trash_pool st)"
    using 3 by (simp add: push_def)
  from a c d e show ?case by (cases taken) auto
qed

declare push_trash_loop.simps [simp del]

definition push_trash :: "string list \<Rightarrow> assign_state \<Rightarrow> assign_state" where
  "push_trash samples st =
     (let (idx, st') = push_trash_loop samples 0 st
      in if idx < length samples
         then st' \<lparr> warnings := warnings st' @
                  [''Dropped '' @ str_nat (length samples - idx) @ '' samples (trash full)''] \<rparr>
         else st')"

text \<open>
  The loop \<open>for note in notes\<close> over the notes of a category, from \<open>idx = 0\<close>; it returns
  the final \<open>idx\<close> with the state. An empty chunk ends it.
\<close>

fun assign_notes :: "int list \<Rightarrow> string list \<Rightarrow> nat \<Rightarrow> assign_state \<Rightarrow> nat \<times> assign_state" where
  "assign_notes [] files idx st = (idx, st)"
| "assign_notes (note # notes) files idx st =
     (let chunk = take LAYER_LIMIT_PER_PAD (drop idx files)
      in if chunk = [] then (idx, st)
         else assign_notes notes files (idx + length chunk) (push note chunk st))"

text \<open>\<open>entry.midi_notes if entry and entry.midi_notes else []\<close>.\<close>

definition category_notes :: "mapping_table \<Rightarrow> string \<Rightarrow> int list" where
  "category_notes mtable cat =
     (case map_of mtable cat of
        None \<Rightarrow> []
      | Some entry \<Rightarrow> (case midi_notes entry of None \<Rightarrow> [] | Some notes \<Rightarrow> notes))"

text \<open>One turn of the loop over \<open>kit_elements.items()\<close>.\<close>

definition assign_category ::
  "mapping_table \<Rightarrow> string \<Rightarrow> string \<times> string list \<Rightarrow> assign_state \<Rightarrow> assign_state" where
  "assign_category mtable policy item st =
     (let cat = fst item; files = snd item
      in if cat = ''other'' then
           (if policy = ''trash'' \<or> policy = ''ignore'' then push_trash files st else st)
         else
           (let notes = category_notes mtable cat;
                (idx, st1) = assign_notes notes files 0 st;
                overflow = drop idx files
            in if overflow \<noteq> [] then
                 (if policy = ''truncate'' then
                    st1 \<lparr> warnings := warnings st1 @
                      [''Overflow in '' @ cat @ '', truncated '' @ str_nat (length overflow)] \<rparr>
                  else if policy = ''trash'' \<or> policy = ''ignore'' then push_trash overflow st1
                  else st1)
               else st1))"

text \<open>The notes some entry of the mapping reserves.\<close>

definition mapped_notes :: "mapping_table \<Rightarrow> int set" where
  "mapped_notes mtable =
     (\<Union>entry \<in> snd ` set mtable. case midi_notes entry of None \<Rightarrow> {} | Some notes \<Rightarrow> set notes)"

definition initial_state :: "mapping_table \<Rightarrow> int list \<Rightarrow> assign_state" where
  "initial_state mtable trash =
     \<lparr> note_to_samples = [],
       trash_pool = filter (\<lambda>n. n \<notin> mapped_notes mtable) trash,
       warnings = [] \<rparr>"

definition assign_samples_to_notes ::
  "elements \<Rightarrow> mapping_table \<Rightarrow> string \<Rightarrow> int list \<Rightarrow>
   (int \<times> string list) list \<times> string list" where
  "assign_samples_to_notes kit_elements mtable policy trash =
     (let st = fold (assign_category mtable policy) kit_elements
                 (initial_state mtable trash)
      in (note_to_samples st, warnings st))"

text \<open>
  What a note received between two states, and how many samples one call of
  \<open>push_trash\<close> placed (the final \<open>idx\<close> of its loop).
\<close>

definition received :: "assign_state \<Rightarrow> assign_state \<Rightarrow> int \<Rightarrow> string list" where
  "received st st' note = drop (length (samples_at st note)) (samples_at st' note)"

definition placed :: "string list \<Rightarrow> assign_state \<Rightarrow> nat" where
  "placed samples st = fst (push_trash_loop samples 0 st)"

text \<open>The elements of a list in the order of their first occurrences.\<close>

fun first_occurrences :: "'a list \<Rightarrow> 'a list" where
  "first_occurrences [] = []"
| "first_occurrences (x # xs) = x # filter (\<lambda>y. y \<noteq> x) (first_occurrences xs)"

section \<open>The quantities of the specification\<close>

text \<open>
  The statistics and counts of a kit as the specification words them (sections 3, 4.1
  and 4.4), for the dictionary of its elements; the properties below compare them with
  what \<open>kit_stats\<close> and the loop of \<open>filter_kits\<close> compute.

  The total sample count is the number of files of the kit. A kit is only-other when
  \<open>other\<close> is its one category, and mixed-other when it has \<open>other\<close> and a real category.
\<close>

definition sample_count :: "elements \<Rightarrow> nat" where
  "sample_count els = length (concat (map snd els))"

definition is_only_other :: "elements \<Rightarrow> bool" where
  "is_only_other els \<longleftrightarrow> fst ` set els = {''other''}"

definition is_mixed_other :: "elements \<Rightarrow> bool" where
  "is_mixed_other els \<longleftrightarrow> ''other'' \<in> fst ` set els \<and> fst ` set els \<noteq> {''other''}"

text \<open>
  The capacity of a category is the number of its MIDI notes times 8, and undefined when
  the mapping declares no note list for it. The excess of a real category is the number
  of its files above its capacity (none when the capacity is undefined); the files of
  \<open>other\<close> all need alternate placement. The needed count is the sum of both.
\<close>

definition declared_capacity :: "mapping_table option \<Rightarrow> string \<Rightarrow> nat option" where
  "declared_capacity mo c =
     (case mo of
        None \<Rightarrow> None
      | Some m \<Rightarrow>
          (case map_of m c of
             None \<Rightarrow> None
           | Some e \<Rightarrow> (case midi_notes e of None \<Rightarrow> None | Some ns \<Rightarrow> Some (8 * length ns))))"

definition category_excess :: "mapping_table option \<Rightarrow> string \<times> string list \<Rightarrow> nat" where
  "category_excess mo item =
     (if fst item = ''other'' then 0
      else (case declared_capacity mo (fst item) of
              None \<Rightarrow> 0
            | Some cap \<Rightarrow> length (snd item) - cap))"

definition other_files :: "elements \<Rightarrow> string list" where
  "other_files els = concat (map snd (filter (\<lambda>item. fst item = ''other'') els))"

definition needed_count :: "mapping_table option \<Rightarrow> elements \<Rightarrow> nat" where
  "needed_count mo els = sum_list (map (category_excess mo) els) + length (other_files els)"

text \<open>The trash capacity: the number of trash notes times 8.\<close>

definition trash_zone_capacity :: "int list option \<Rightarrow> nat" where
  "trash_zone_capacity notes = (case notes of None \<Rightarrow> 0 | Some ns \<Rightarrow> 8 * length ns)"

text \<open>The reason codes of a rejection.\<close>

definition reason_codes :: "string list" where
  "reason_codes =
     [''too_few_samples'', ''only_other'', ''mixed_other'', ''overflow_or_other'',
      ''trash_zone_insufficient'']"

section \<open>Scenario data\<close>

text \<open>
  The mapping \<open>kick/bd:36\<close>, ten kick samples \<open>Kick 1.wav\<close> to \<open>Kick 10.wav\<close>, and a
  configuration of \<open>filter_kits\<close> with that mapping, no threshold and a given overflow
  policy and trash-note list.
\<close>

definition kick_mapping :: mapping_table where
  "kick_mapping =
     [(''kick'', \<lparr> canonical = ''kick'', synonyms = [''kick'', ''bd''], midi_notes = Some [36] \<rparr>)]"

definition ten_kicks :: "string list" where
  "ten_kicks = map (\<lambda>i. ''Kick '' @ str_nat i @ ''.wav'') [1 ..< 11]"

definition scenario_cfg :: "string \<Rightarrow> int list \<Rightarrow> filter_config" where
  "scenario_cfg policy notes =
     \<lparr> min_total_samples = 0, exclude_only_other = False, exclude_mixed_other = False,
       mapping = Some kick_mapping, overflow_policy = policy, trash_notes = Some notes \<rparr>"

text \<open>
  A configuration with every threshold check on (at least two samples, no only-other and
  no mixed-other kit) under policy \<open>reject\<close>, and the kits a scan of a library \<open>lib\<close>
  with the files \<open>Kick Demo 2.wav\<close>, \<open>Kick Demo 1.wav\<close> and \<open>Junk.wav\<close> finds.
\<close>

definition threshold_cfg :: filter_config where
  "threshold_cfg =
     \<lparr> min_total_samples = 2, exclude_only_other = True, exclude_mixed_other = True,
       mapping = Some kick_mapping, overflow_policy = ''reject'', trash_notes = None \<rparr>"

definition demo_kits :: "(string \<times> elements) list" where
  "demo_kits =
     [(''Demo'', [(''kick'', [''lib/Kick Demo 2.wav'', ''lib/Kick Demo 1.wav''])]),
      (''Junk'', [(''other'', [''lib/Junk.wav''])])]"

text \<open>
  The notes the entries of a mapping reserve, listed entry after entry with their
  repetitions, and two overlapping mappings: one lists note 36 twice, the other gives it
  to two categories.
\<close>

definition reserved_notes :: "mapping_table \<Rightarrow> int list" where
  "reserved_notes mtable =
     concat (map (\<lambda>item. case midi_notes (snd item) of None \<Rightarrow> [] | Some notes \<Rightarrow> notes) mtable)"

definition repeated_note_mapping :: mapping_table where
  "repeated_note_mapping =
     [(''kick'', \<lparr> canonical = ''kick'', synonyms = [''kick''], midi_notes = Some [36, 36] \<rparr>)]"

definition shared_note_mapping :: mapping_table where
  "shared_note_mapping =
     [(''kick'', \<lparr> canonical = ''kick'', synonyms = [''kick''], midi_notes = Some [36] \<rparr>),
      (''snare'', \<lparr> canonical = ''snare'', synonyms = [''snare''], midi_notes = Some [36] \<rparr>)]"

section \<open>Verified properties\<close>

subsection \<open>Velocity bands\<close>

lemma velocity_ranges_1: "velocity_ranges 1 = [(1, 127)]"
  by code_simp

lemma velocity_ranges_2: "velocity_ranges 2 = [(1, 63), (64, 127)]"
  by code_simp

lemma velocity_ranges_3: "velocity_ranges 3 = [(1, 42), (43, 84), (85, 127)]"
  by code_simp

lemma velocity_ranges_4: "velocity_ranges 4 = [(1, 31), (32, 63), (64, 95), (96, 127)]"
  by code_simp

lemma velocity_ranges_5:
  "velocity_ranges 5 = [(1, 25), (26, 50), (51, 76), (77, 101), (102, 127)]"
  by code_simp

lemma velocity_ranges_6:
  "velocity_ranges 6 = [(1, 21), (22, 42), (43, 63), (64, 84), (85, 105), (106, 127)]"
  by code_simp

lemma velocity_ranges_7:
  "velocity_ranges 7 =
     [(1, 18), (19, 36), (37, 54), (55, 72), (73, 90), (91, 108), (109, 127)]"
  by code_simp

lemma velocity_ranges_8:
  "velocity_ranges 8 =
     [(1, 15), (16, 31), (32, 47), (48, 63), (64, 79), (80, 95), (96, 111), (112, 127)]"
  by code_simp

text \<open>
  Claim C1. For every layer count \<open>n\<close> from 1 to 8, \<open>velocity_ranges n\<close> has exactly
  \<open>n\<close> bands; the first band starts at 1, the last band ends at 127, every later band
  starts one above the end of the band before it, and no band is empty (so the bands
  tile 1..127 without gap or overlap).
\<close>

theorem velocity_ranges_tile:
  assumes "1 \<le> n" and "n \<le> 8"
  shows "length (velocity_ranges n) = nat n \<and>
         fst (velocity_ranges n ! 0) = 1 \<and>
         snd (velocity_ranges n ! (nat n - 1)) = 127 \<and>
         (\<forall>i. 0 < i \<and> i < nat n \<longrightarrow>
              fst (velocity_ranges n ! i) = snd (velocity_ranges n ! (i - 1)) + 1) \<and>
         (\<forall>i < nat n. fst (velocity_ranges n ! i) \<le> snd (velocity_ranges n ! i))"
proof -
  from assms consider "n = 1" | "n = 2" | "n = 3" | "n = 4" | "n = 5" | "n = 6" | "n = 7" | "n = 8"
    by arith
  then show ?thesis
  proof cases
    case 1 then show ?thesis
      unfolding 1 velocity_ranges_1 by (auto simp: eval_nat_numeral less_Suc_eq)
  next
    case 2 then show ?thesis
      unfolding 2 velocity_ranges_2 by (auto simp: eval_nat_numeral less_Suc_eq)
  next
    case 3 then show ?thesis
      unfolding 3 velocity_ranges_3 by (auto simp: eval_nat_numeral less_Suc_eq)
  next
    case 4 then show ?thesis
      unfolding 4 velocity_ranges_4 by (auto simp: eval_nat_numeral less_Suc_eq)
  next
    case 5 then show ?thesis
      unfolding 5 velocity_ranges_5 by (auto simp: eval_nat_numeral less_Suc_eq)
  next
    case 6 then show ?thesis
      unfolding 6 velocity_ranges_6 by (auto simp: eval_nat_numeral less_Suc_eq)
  next
    case 7 then show ?thesis
      unfolding 7 velocity_ranges_7 by (auto simp: eval_nat_numeral less_Suc_eq)
  next
    case 8 then show ?thesis
      unfolding 8 velocity_ranges_8 by (auto simp: eval_nat_numeral less_Suc_eq)
  qed
qed

theorem velocity_ranges_tile_witness:
  "(1::int) \<le> 3 \<and> (3::int) \<le> 8 \<and> length (velocity_ranges 3) = 3 \<and>
   fst (velocity_ranges 3 ! 0) = 1 \<and> snd (velocity_ranges 3 ! 2) = 127 \<and>
   fst (velocity_ranges 3 ! 1) = snd (velocity_ranges 3 ! 0) + 1 \<and>
   fst (velocity_ranges 3 ! 2) = snd (velocity_ranges 3 ! 1) + 1"
  using velocity_ranges_tile [of 3] by simp

subsection \<open>Stripping and substitution\<close>

lemma strip_prefix_dropWhile: "\<exists>b. dropWhile is_space s = strip s @ b"
proof -
  have "rev (dropWhile is_space s) =
          takeWhile is_space (rev (dropWhile is_space s)) @
          dropWhile is_space (rev (dropWhile is_space s))"
    by simp
  then have "dropWhile is_space s =
          rev (dropWhile is_space (rev (dropWhile is_space s))) @
          rev (takeWhile is_space (rev (dropWhile is_space s)))"
    by (metis rev_append rev_rev_ident)
  then show ?thesis unfolding strip_def by blast
qed

lemma strip_decomp: "\<exists>a b. s = a @ strip s @ b"
proof -
  let ?t = "dropWhile is_space s"
  have "s = takeWhile is_space s @ ?t" by simp
  moreover obtain b where "?t = strip s @ b"
    using strip_prefix_dropWhile by blast
  ultimately show ?thesis by metis
qed

lemma set_strip: "set (strip s) \<subseteq> set s"
  using strip_decomp [of s] by (metis Un_iff set_append subsetI)

lemma strip_hd: "strip s \<noteq> [] \<Longrightarrow> \<not> is_space (hd (strip s))"
proof -
  assume a: "strip s \<noteq> []"
  obtain b where b: "dropWhile is_space s = strip s @ b"
    using strip_prefix_dropWhile by blast
  then have t: "dropWhile is_space s \<noteq> []" using a by simp
  have nh: "\<not> is_space (hd (dropWhile is_space s))" using t by (rule hd_dropWhile)
  have "hd (dropWhile is_space s) = hd (strip s)" using a b by simp
  with nh show ?thesis by simp
qed

lemma strip_last: "strip s \<noteq> [] \<Longrightarrow> \<not> is_space (last (strip s))"
proof -
  assume a: "strip s \<noteq> []"
  let ?u = "dropWhile is_space (rev (dropWhile is_space s))"
  have u: "?u \<noteq> []" using a by (simp add: strip_def)
  then have "\<not> is_space (hd ?u)" by (rule hd_dropWhile)
  moreover have "last (strip s) = hd ?u" using u by (simp add: strip_def last_rev)
  ultimately show ?thesis by simp
qed

lemma re_sub_runs_clean:
  "\<forall>c \<in> set repl. \<not> P c \<Longrightarrow> \<forall>c \<in> set (re_sub_runs P repl s). \<not> P c"
proof (induction P repl s rule: re_sub_runs.induct)
  case (1 P repl)
  then show ?case by simp
next
  case (2 P repl c cs)
  show ?case
  proof (cases "P c")
    case True
    with 2 have "\<forall>c \<in> set (re_sub_runs P repl (dropWhile P cs)). \<not> P c" by blast
    with True 2(3) show ?thesis by (simp add: ball_Un)
  next
    case False
    with 2 have "\<forall>c \<in> set (re_sub_runs P repl cs). \<not> P c" by blast
    with False show ?thesis by simp
  qed
qed

lemma set_re_sub_runs: "set (re_sub_runs P repl s) \<subseteq> set s \<union> set repl"
proof (induction P repl s rule: re_sub_runs.induct)
  case (1 P repl)
  then show ?case by simp
next
  case (2 P repl c cs)
  show ?case
  proof (cases "P c")
    case True
    with 2 have "set (re_sub_runs P repl (dropWhile P cs)) \<subseteq> set (dropWhile P cs) \<union> set repl"
      by blast
    moreover have "set (dropWhile P cs) \<subseteq> set cs"
      by (auto dest: set_dropWhileD)
    ultimately show ?thesis using True by auto
  next
    case False
    with 2 have "set (re_sub_runs P repl cs) \<subseteq> set cs \<union> set repl" by blast
    with False show ?thesis by auto
  qed
qed

lemma re_sub_runs_hd:
  "s \<noteq> [] \<Longrightarrow> \<not> P (hd s) \<Longrightarrow> re_sub_runs P repl s \<noteq> [] \<and> hd (re_sub_runs P repl s) = hd s"
  by (cases s) auto

lemma single_spaced_Cons:
  "single_spaced (c # r) \<longleftrightarrow>
     (\<not> is_space c \<or> (c = CHR '' '' \<and> (r = [] \<or> \<not> is_space (hd r)))) \<and> single_spaced r"
  by (cases r) auto

lemma re_sub_runs_single_spaced: "single_spaced (re_sub_runs is_space '' '' s)"
proof (induction "is_space" "'' ''" s rule: re_sub_runs.induct)
  case 1
  then show ?case by simp
next
  case (2 c cs)
  show ?case
  proof (cases "is_space c")
    case True
    let ?d = "dropWhile is_space cs"
    have ih: "single_spaced (re_sub_runs is_space '' '' ?d)" using 2 True by simp
    have "re_sub_runs is_space '' '' ?d = [] \<or> \<not> is_space (hd (re_sub_runs is_space '' '' ?d))"
    proof (cases "?d = []")
      case True
      then have "re_sub_runs is_space '' '' ?d = []" by (simp only: re_sub_runs.simps)
      then show ?thesis by blast
    next
      case False
      then have "\<not> is_space (hd ?d)" by (rule hd_dropWhile)
      with False show ?thesis using re_sub_runs_hd by metis
    qed
    with ih True show ?thesis by (simp add: single_spaced_Cons)
  next
    case False
    with 2 show ?thesis by (simp add: single_spaced_Cons)
  qed
qed

lemma single_spaced_append: "single_spaced (xs @ ys) \<Longrightarrow> single_spaced xs \<and> single_spaced ys"
proof (induction xs)
  case Nil then show ?case by simp
next
  case (Cons x xs)
  then show ?case by (cases xs) (auto simp: single_spaced_Cons)
qed

lemma single_spaced_strip: "single_spaced s \<Longrightarrow> single_spaced (strip s)"
  using strip_decomp [of s] single_spaced_append by metis


lemma UNTITLED_ok:
  "(\<forall>c \<in> set ''UNTITLED''. \<not> is_forbidden c) \<and> \<not> is_space (hd ''UNTITLED'') \<and>
   \<not> is_space (last ''UNTITLED'') \<and> single_spaced ''UNTITLED''"
  by (simp add: is_forbidden_def is_space_def)

lemma sanitize_body_clean:
  "\<forall>c \<in> set (strip (re_sub_runs is_space '' '' (re_sub_runs is_forbidden ''_'' s))).
      \<not> is_forbidden c"
proof
  fix c
  assume "c \<in> set (strip (re_sub_runs is_space '' '' (re_sub_runs is_forbidden ''_'' s)))"
  then have "c \<in> set (re_sub_runs is_space '' '' (re_sub_runs is_forbidden ''_'' s))"
    using set_strip by blast
  then have "c \<in> set (re_sub_runs is_forbidden ''_'' s) \<or> c = CHR '' ''"
    using set_re_sub_runs [of is_space "'' ''" "re_sub_runs is_forbidden ''_'' s"] by auto
  moreover have "\<forall>c \<in> set (re_sub_runs is_forbidden ''_'' s). \<not> is_forbidden c"
    by (rule re_sub_runs_clean) (simp add: is_forbidden_def)
  moreover have "\<not> is_forbidden (CHR '' '')" by (simp add: is_forbidden_def)
  ultimately show "\<not> is_forbidden c" by blast
qed

text \<open>
  Collapsing the whitespace runs of a string to single spaces and stripping the result
  joins the words of the string by single spaces; and the words of the substituted name
  do not depend on the first \<open>strip\<close>.
\<close>

lemma strip_rstrip: "strip s = rstrip (dropWhile is_space s)"
  by (simp add: strip_def rstrip_def)

lemma rstrip_empty_iff: "rstrip t = [] \<longleftrightarrow> (\<forall>c \<in> set t. is_space c)"
  by (simp add: rstrip_def dropWhile_eq_Nil_conv)

lemma rstrip_append: "rstrip b \<noteq> [] \<Longrightarrow> rstrip (a @ b) = a @ rstrip b"
proof -
  assume "rstrip b \<noteq> []"
  then obtain x where x: "x \<in> set (rev b)" "\<not> is_space x"
    by (auto simp: rstrip_empty_iff)
  then have "dropWhile is_space (rev b @ rev a) = dropWhile is_space (rev b) @ rev a"
    by (rule dropWhile_append1)
  then show ?thesis by (simp add: rstrip_def)
qed

lemma rstrip_spaces: "\<forall>c \<in> set b. is_space c \<Longrightarrow> rstrip (a @ b) = rstrip a"
proof -
  assume "\<forall>c \<in> set b. is_space c"
  then have "\<And>x. x \<in> set (rev b) \<Longrightarrow> is_space x" by simp
  then have "dropWhile is_space (rev b @ rev a) = dropWhile is_space (rev a)"
    by (rule dropWhile_append2)
  then show ?thesis by (simp add: rstrip_def)
qed

lemma rstrip_last: "t \<noteq> [] \<Longrightarrow> \<not> is_space (last t) \<Longrightarrow> rstrip t = t"
proof -
  assume a: "t \<noteq> []" "\<not> is_space (last t)"
  then have "rev t \<noteq> []" "\<not> is_space (hd (rev t))" by (simp_all add: hd_rev)
  then have "dropWhile is_space (rev t) = rev t" by (cases "rev t") simp_all
  then show ?thesis by (simp add: rstrip_def)
qed

lemma words_of_dropWhile: "words_of (dropWhile is_space s) = words_of s"
  by (induction s) simp_all

lemma words_of_spaces: "\<forall>c \<in> set b. is_space c \<Longrightarrow> words_of b = []"
  by (induction b) simp_all

lemma words_of_prepend_spaces: "\<forall>c \<in> set a. is_space c \<Longrightarrow> words_of (a @ t) = words_of t"
  by (induction a) simp_all

lemma collapse_space:
  "is_space c \<Longrightarrow>
   re_sub_runs is_space '' '' (c # cs) = CHR '' '' # re_sub_runs is_space '' '' (dropWhile is_space cs)"
  by simp

lemma collapse_word:
  "\<forall>c \<in> set w. \<not> is_space c \<Longrightarrow>
   re_sub_runs is_space '' '' (w @ r) = w @ re_sub_runs is_space '' '' r"
  by (induction w) simp_all

lemma collapse_hd:
  "d \<noteq> [] \<Longrightarrow> \<not> is_space (hd d) \<Longrightarrow>
   re_sub_runs is_space '' '' d \<noteq> [] \<and> \<not> is_space (hd (re_sub_runs is_space '' '' d))"
  by (cases d) simp_all

lemma collapse_dropWhile:
  "dropWhile is_space (re_sub_runs is_space '' '' s) =
     re_sub_runs is_space '' '' (dropWhile is_space s)"
proof (cases s)
  case Nil
  then show ?thesis by simp
next
  case (Cons c cs)
  show ?thesis
  proof (cases "is_space c")
    case False
    then show ?thesis by (simp add: Cons)
  next
    case True
    let ?d = "dropWhile is_space cs"
    have sp: "is_space (CHR '' '')" by (simp add: is_space_def)
    have D: "dropWhile is_space (re_sub_runs is_space '' '' ?d) = re_sub_runs is_space '' '' ?d"
    proof (cases "?d = []")
      case True
      show ?thesis unfolding True by simp
    next
      case False
      then have "\<not> is_space (hd ?d)" by (rule hd_dropWhile)
      with False have h: "re_sub_runs is_space '' '' ?d \<noteq> [] \<and>
                       \<not> is_space (hd (re_sub_runs is_space '' '' ?d))"
        by (rule collapse_hd)
      then show ?thesis by (cases "re_sub_runs is_space '' '' ?d") simp_all
    qed
    have L: "re_sub_runs is_space '' '' (c # cs) = CHR '' '' # re_sub_runs is_space '' '' ?d"
      using True by (rule collapse_space)
    have "dropWhile is_space (re_sub_runs is_space '' '' (c # cs)) =
            dropWhile is_space (re_sub_runs is_space '' '' ?d)"
      unfolding L using sp by (simp only: dropWhile.simps if_True)
    also have "\<dots> = re_sub_runs is_space '' '' ?d" by (rule D)
    also have "?d = dropWhile is_space (c # cs)" using True by simp
    finally show ?thesis unfolding Cons .
  qed
qed

lemma word_parts:
  "\<not> is_space c \<Longrightarrow>
   c # cs = (c # takeWhile (\<lambda>x. \<not> is_space x) cs) @ dropWhile (\<lambda>x. \<not> is_space x) cs"
  by simp

lemma rstrip_collapse:
  "d = [] \<or> \<not> is_space (hd d) \<Longrightarrow>
   rstrip (re_sub_runs is_space '' '' d) = unwords (words_of d)"
proof (induction d rule: length_induct)
  case (1 d)
  show ?case
  proof (cases d)
    case Nil
    then show ?thesis by (simp add: rstrip_def)
  next
    case (Cons c cs)
    with 1(2) have nc: "\<not> is_space c" by simp
    let ?w = "c # takeWhile (\<lambda>x. \<not> is_space x) cs"
    let ?r = "dropWhile (\<lambda>x. \<not> is_space x) cs"
    have wns: "\<forall>x \<in> set ?w. \<not> is_space x"
      using nc by (auto dest: set_takeWhileD)
    have lw: "\<not> is_space (last ?w)" using wns by (metis last_in_set list.distinct(1))
    have d: "d = ?w @ ?r" unfolding Cons using nc by simp
    have N: "re_sub_runs is_space '' '' d = ?w @ re_sub_runs is_space '' '' ?r"
      by (subst d) (rule collapse_word [OF wns])
    have W: "words_of d = ?w # words_of ?r" using nc by (simp add: Cons)
    show ?thesis
    proof (cases "?r = []")
      case True
      have "rstrip (re_sub_runs is_space '' '' d) = rstrip ?w"
        unfolding N True by simp
      also have "\<dots> = ?w" by (rule rstrip_last [OF _ lw]) simp
      finally show ?thesis unfolding W True by simp
    next
      case False
      then obtain x r' where r: "?r = x # r'" by (cases ?r) auto
      have "\<not> (\<not> is_space (hd ?r))" using False by (rule hd_dropWhile)
      then have sx: "is_space x" by (simp add: r)
      let ?e = "dropWhile is_space r'"
      have Nr: "re_sub_runs is_space '' '' ?r = CHR '' '' # re_sub_runs is_space '' '' ?e"
        unfolding r using sx by simp
      have Wr: "words_of ?r = words_of ?e"
        unfolding r using sx by (simp add: words_of_dropWhile)
      have le: "length ?e < length d"
      proof -
        have "length ?e \<le> length r'" by (rule length_dropWhile_le)
        also have "\<dots> < length ?r" by (simp add: r)
        also have "\<dots> \<le> length cs" by (rule length_dropWhile_le)
        also have "\<dots> < length d" by (simp add: Cons)
        finally show ?thesis .
      qed
      have eh: "?e = [] \<or> \<not> is_space (hd ?e)"
        using hd_dropWhile [of is_space r'] by blast
      have IH: "rstrip (re_sub_runs is_space '' '' ?e) = unwords (words_of ?e)"
        using 1(1) le eh by blast
      show ?thesis
      proof (cases "?e = []")
        case True
        have sp: "\<forall>c \<in> set '' ''. is_space c" by (simp add: is_space_def)
        have "rstrip (re_sub_runs is_space '' '' d) = rstrip (?w @ '' '')"
          unfolding N Nr True by simp
        also have "\<dots> = rstrip ?w" by (rule rstrip_spaces [OF sp])
        also have "\<dots> = ?w" by (rule rstrip_last [OF _ lw]) simp
        finally show ?thesis unfolding W Wr True by simp
      next
        case False
        then have he: "\<not> is_space (hd ?e)" using eh by blast
        obtain y e' where e: "?e = y # e'" using False by (cases ?e) auto
        have ny: "\<not> is_space y" using he by (simp add: e)
        have "y \<in> set (re_sub_runs is_space '' '' ?e)"
          unfolding e using ny by simp
        then have ne: "rstrip (re_sub_runs is_space '' '' ?e) \<noteq> []"
          using ny by (auto simp: rstrip_empty_iff)
        have we: "words_of ?e \<noteq> []" unfolding e using ny by simp
        then obtain v vs where v: "words_of ?e = v # vs" by (cases "words_of ?e") auto
        have "rstrip (re_sub_runs is_space '' '' d) =
                rstrip ((?w @ '' '') @ re_sub_runs is_space '' '' ?e)"
          unfolding N Nr by simp
        also have "\<dots> = (?w @ '' '') @ rstrip (re_sub_runs is_space '' '' ?e)"
          by (rule rstrip_append [OF ne])
        also have "\<dots> = (?w @ '' '') @ unwords (words_of ?e)" by (simp only: IH)
        also have "\<dots> = unwords (?w # words_of ?e)" unfolding v by simp
        finally show ?thesis unfolding W Wr .
      qed
    qed
  qed
qed

lemma strip_collapse: "strip (re_sub_runs is_space '' '' s) = unwords (words_of s)"
proof -
  have "strip (re_sub_runs is_space '' '' s) =
          rstrip (re_sub_runs is_space '' '' (dropWhile is_space s))"
    by (simp only: strip_rstrip collapse_dropWhile)
  also have "\<dots> = unwords (words_of (dropWhile is_space s))"
    by (rule rstrip_collapse) (use hd_dropWhile [of is_space s] in blast)
  finally show ?thesis by (simp only: words_of_dropWhile)
qed

lemma space_not_forbidden: "is_space c \<Longrightarrow> \<not> is_forbidden c"
  by (auto simp: is_forbidden_def is_space_def)

lemma rev_split: "u = rev (dropWhile P (rev u)) @ rev (takeWhile P (rev u))"
proof -
  have "rev (rev u) = rev (takeWhile P (rev u) @ dropWhile P (rev u))"
    by (simp only: takeWhile_dropWhile_id)
  then show ?thesis by (simp only: rev_rev_ident rev_append)
qed

lemma strip_decomp_spaces:
  "\<exists>a b. s = a @ strip s @ b \<and> (\<forall>c \<in> set a. is_space c) \<and> (\<forall>c \<in> set b. is_space c)"
proof -
  let ?t = "dropWhile is_space s"
  let ?a = "takeWhile is_space s"
  let ?b = "rev (takeWhile is_space (rev ?t))"
  have t: "?t = strip s @ ?b" unfolding strip_def by (rule rev_split)
  have "s = ?a @ ?t" by simp
  then have s: "s = ?a @ strip s @ ?b" using t by simp
  have a: "\<forall>c \<in> set ?a. is_space c" by (auto dest: set_takeWhileD)
  have b: "\<forall>c \<in> set ?b. is_space c" by (auto dest: set_takeWhileD)
  show ?thesis by (rule exI [of _ ?a], rule exI [of _ ?b]) (intro conjI s a b)
qed

lemma words_of_nonempty: "w \<in> set (words_of s) \<Longrightarrow> w \<noteq> []"
  by (induction s rule: words_of.induct) (auto split: if_splits)

lemma dropWhile_append_keep:
  "\<forall>c \<in> set b. \<not> P c \<Longrightarrow> dropWhile P (cs @ b) = dropWhile P cs @ b"
proof (induction cs)
  case Nil
  then show ?case by (cases b) simp_all
next
  case (Cons c cs)
  then show ?case by simp
qed

lemma subst_prepend:
  "\<forall>c \<in> set a. \<not> P c \<Longrightarrow> re_sub_runs P repl (a @ t) = a @ re_sub_runs P repl t"
  by (induction a) simp_all

lemma subst_append:
  "\<forall>c \<in> set b. \<not> P c \<Longrightarrow> re_sub_runs P repl (t @ b) = re_sub_runs P repl t @ b"
proof (induction P repl t rule: re_sub_runs.induct)
  case (1 P repl)
  then show ?case using subst_prepend [of b P repl "[]"] by simp
next
  case (2 P repl c cs)
  show ?case
  proof (cases "P c")
    case True
    have "re_sub_runs P repl (dropWhile P cs @ b) = re_sub_runs P repl (dropWhile P cs) @ b"
      using 2(1) [OF True 2(3)] .
    then show ?thesis using True by (simp add: dropWhile_append_keep [OF 2(3)])
  next
    case False
    have "re_sub_runs P repl (cs @ b) = re_sub_runs P repl cs @ b"
      using 2(2) [OF False 2(3)] .
    then show ?thesis using False by simp
  qed
qed

lemma words_of_append_spaces:
  "\<forall>c \<in> set b. is_space c \<Longrightarrow> words_of (t @ b) = words_of t"
proof (induction t rule: words_of.induct)
  case 1
  then show ?case by (simp add: words_of_spaces)
next
  case (2 c cs)
  show ?case
  proof (cases "is_space c")
    case True
    then show ?thesis using 2(1) [OF True 2(3)] by simp
  next
    case False
    let ?n = "\<lambda>x. \<not> is_space x"
    have nb: "\<And>x. x \<in> set b \<Longrightarrow> \<not> ?n x" using 2(3) by simp
    have tb: "takeWhile ?n b = []" using nb by (cases b) simp_all
    have db: "dropWhile ?n b = b" using nb by (cases b) simp_all
    show ?thesis
    proof (cases "\<forall>x \<in> set cs. ?n x")
      case True
      then have t1: "takeWhile ?n (cs @ b) = cs" by (simp add: takeWhile_append2 tb)
      from True have d1: "dropWhile ?n (cs @ b) = b" by (simp add: dropWhile_append2 db)
      from True have t2: "takeWhile ?n cs = cs" by simp
      from True have d2: "dropWhile ?n cs = []" by simp
      have "words_of (c # cs @ b) = (c # cs) # words_of b"
        using False by (simp add: t1 d1)
      also have "\<dots> = [c # cs]" using 2(3) by (simp add: words_of_spaces)
      also have "\<dots> = words_of (c # cs)" using False by (simp add: t2 d2)
      finally show ?thesis by simp
    next
      case False2: False
      then obtain x where x: "x \<in> set cs" "\<not> ?n x" by blast
      have t1: "takeWhile ?n (cs @ b) = takeWhile ?n cs" using x by (rule takeWhile_append1)
      have d1: "dropWhile ?n (cs @ b) = dropWhile ?n cs @ b" using x by (rule dropWhile_append1)
      have ih: "words_of (dropWhile ?n cs @ b) = words_of (dropWhile ?n cs)"
        using 2(2) [OF False 2(3)] .
      show ?thesis using False by (simp add: t1 d1 ih)
    qed
  qed
qed

lemma words_of_subst_strip:
  "words_of (re_sub_runs is_forbidden ''_'' (strip name)) =
     words_of (re_sub_runs is_forbidden ''_'' name)"
proof -
  obtain a b where n: "name = a @ strip name @ b"
    and a: "\<forall>c \<in> set a. is_space c" and b: "\<forall>c \<in> set b. is_space c"
    using strip_decomp_spaces [of name] by blast
  have fa: "\<forall>c \<in> set a. \<not> is_forbidden c" using a space_not_forbidden by blast
  have fb: "\<forall>c \<in> set b. \<not> is_forbidden c" using b space_not_forbidden by blast
  let ?F = "re_sub_runs is_forbidden ''_''"
  have "?F (a @ strip name @ b) = a @ ?F (strip name @ b)" by (rule subst_prepend [OF fa])
  also have "\<dots> = a @ ?F (strip name) @ b" by (simp only: subst_append [OF fb])
  finally have "words_of (?F (a @ strip name @ b)) = words_of (a @ ?F (strip name) @ b)"
    by simp
  also have "\<dots> = words_of (?F (strip name) @ b)" by (rule words_of_prepend_spaces [OF a])
  also have "\<dots> = words_of (?F (strip name))" by (rule words_of_append_spaces [OF b])
  finally show ?thesis using n by simp
qed

lemma sanitize_filename_words:
  "sanitize_filename name =
     (if words_of (re_sub_runs is_forbidden ''_'' name) = [] then ''UNTITLED''
      else unwords (words_of (re_sub_runs is_forbidden ''_'' name)))"
proof -
  let ?ws = "words_of (re_sub_runs is_forbidden ''_'' name)"
  have u: "strip (re_sub_runs is_space '' '' (re_sub_runs is_forbidden ''_'' (strip name))) =
             unwords ?ws"
    by (simp only: strip_collapse words_of_subst_strip)
  have e: "(unwords ?ws = []) = (?ws = [])"
  proof (cases ?ws)
    case Nil
    then show ?thesis by simp
  next
    case (Cons w ws)
    have "w \<noteq> []" by (rule words_of_nonempty [of w "re_sub_runs is_forbidden ''_'' name"]) (simp add: Cons)
    then show ?thesis unfolding Cons by (cases ws) simp_all
  qed
  show ?thesis by (simp add: sanitize_filename_def u e)
qed

lemma sanitize_filename_shape:
  shows "sanitize_filename name \<noteq> []"
    and "\<forall>c \<in> set (sanitize_filename name). \<not> is_forbidden c"
    and "\<not> is_space (hd (sanitize_filename name))"
    and "\<not> is_space (last (sanitize_filename name))"
    and "single_spaced (sanitize_filename name)"
    and "strip (re_sub_runs is_space '' '' (re_sub_runs is_forbidden ''_'' (strip name))) = []
           \<longrightarrow> sanitize_filename name = ''UNTITLED''"
proof -
  let ?r = "strip (re_sub_runs is_space '' '' (re_sub_runs is_forbidden ''_'' (strip name)))"
  have all: "sanitize_filename name \<noteq> [] \<and>
     (\<forall>c \<in> set (sanitize_filename name). \<not> is_forbidden c) \<and>
     \<not> is_space (hd (sanitize_filename name)) \<and>
     \<not> is_space (last (sanitize_filename name)) \<and>
     single_spaced (sanitize_filename name) \<and>
     (?r = [] \<longrightarrow> sanitize_filename name = ''UNTITLED'')"
  proof (cases "?r = []")
    case True
    then have "sanitize_filename name = ''UNTITLED''"
      by (simp add: sanitize_filename_def)
    then show ?thesis using UNTITLED_ok by simp
  next
    case False
    have r: "sanitize_filename name = ?r" using False by (simp add: sanitize_filename_def)
    have "\<forall>c \<in> set ?r. \<not> is_forbidden c" by (rule sanitize_body_clean)
    moreover have "\<not> is_space (hd ?r)" using False by (rule strip_hd)
    moreover have "\<not> is_space (last ?r)" using False by (rule strip_last)
    moreover have "single_spaced ?r"
      by (rule single_spaced_strip) (rule re_sub_runs_single_spaced)
    ultimately show ?thesis using False unfolding r by blast
  qed
  from all show "sanitize_filename name \<noteq> []" by (rule conjunct1)
  from all show "\<forall>c \<in> set (sanitize_filename name). \<not> is_forbidden c" by blast
  from all show "\<not> is_space (hd (sanitize_filename name))" by blast
  from all show "\<not> is_space (last (sanitize_filename name))" by blast
  from all show "single_spaced (sanitize_filename name)" by blast
  from all show "?r = [] \<longrightarrow> sanitize_filename name = ''UNTITLED''" by blast
qed

text \<open>
  Claim C10. For every input, \<open>sanitize_filename\<close> returns a non-empty string with none
  of the characters \<open>\ / : * ? " < > |\<close>, whose first and last characters are not
  whitespace and in which every whitespace character is a single space followed by no
  further whitespace. The result is made of the words of the name in which every run of
  forbidden characters has been replaced by one underscore, joined by single spaces; when
  there is no word, that is when the stripped and substituted name is empty, the result
  is the placeholder \<open>UNTITLED\<close>.
\<close>

theorem sanitize_filename_safe:
  "sanitize_filename name \<noteq> [] \<and>
   (\<forall>c \<in> set (sanitize_filename name). \<not> is_forbidden c) \<and>
   \<not> is_space (hd (sanitize_filename name)) \<and>
   \<not> is_space (last (sanitize_filename name)) \<and>
   single_spaced (sanitize_filename name) \<and>
   (strip (re_sub_runs is_space '' '' (re_sub_runs is_forbidden ''_'' (strip name))) = []
      \<longrightarrow> sanitize_filename name = ''UNTITLED'') \<and>
   sanitize_filename name =
     (if words_of (re_sub_runs is_forbidden ''_'' name) = [] then ''UNTITLED''
      else unwords (words_of (re_sub_runs is_forbidden ''_'' name)))"
  by (intro conjI sanitize_filename_shape sanitize_filename_words)

lemma sanitize_words_example:
  "words_of (re_sub_runs is_forbidden ''_'' '' a/:b   c?  '') = [''a_b'', ''c_''] \<and>
   words_of (re_sub_runs is_forbidden ''_'' ''   '') = []"
  by code_simp

lemma sanitize_blank_example:
  "strip (re_sub_runs is_space '' '' (re_sub_runs is_forbidden ''_'' (strip ''   ''))) = []"
  by code_simp

theorem sanitize_filename_safe_witness:
  "words_of (re_sub_runs is_forbidden ''_'' '' a/:b   c?  '') = [''a_b'', ''c_''] \<and>
   sanitize_filename '' a/:b   c?  '' = ''a_b c_'' \<and>
   single_spaced (sanitize_filename '' a/:b   c?  '') \<and>
   \<not> is_space (hd (sanitize_filename '' a/:b   c?  '')) \<and>
   words_of (re_sub_runs is_forbidden ''_'' ''   '') = [] \<and>
   strip (re_sub_runs is_space '' '' (re_sub_runs is_forbidden ''_'' (strip ''   ''))) = [] \<and>
   sanitize_filename ''   '' = ''UNTITLED''"
proof -
  note a = sanitize_filename_safe [of "'' a/:b   c?  ''"]
  note b = sanitize_filename_safe [of "''   ''"]
  note w = sanitize_words_example
  have a1: "sanitize_filename '' a/:b   c?  '' = ''a_b c_''"
    using a [THEN conjunct2, THEN conjunct2, THEN conjunct2, THEN conjunct2, THEN conjunct2,
             THEN conjunct2]
    unfolding w [THEN conjunct1] by simp
  have a2: "single_spaced (sanitize_filename '' a/:b   c?  '')"
    using a [THEN conjunct2, THEN conjunct2, THEN conjunct2, THEN conjunct2, THEN conjunct1] .
  have a3: "\<not> is_space (hd (sanitize_filename '' a/:b   c?  ''))"
    using a [THEN conjunct2, THEN conjunct2, THEN conjunct1] .
  have b1: "sanitize_filename ''   '' = ''UNTITLED''"
    using b [THEN conjunct2, THEN conjunct2, THEN conjunct2, THEN conjunct2, THEN conjunct2,
             THEN conjunct1] sanitize_blank_example
    by (rule mp)
  show ?thesis
    by (intro conjI w [THEN conjunct1] a1 a2 a3 w [THEN conjunct2] sanitize_blank_example b1)
qed

subsection \<open>Layers of a pad\<close>

lemma float_str_63: "float_str 63 = ''63.0''"
  by code_simp

lemma float_str_64: "float_str 64 = ''64.0''"
  by code_simp

lemma upt_0_2: "[0 ..< 2] = [0, Suc 0]"
  by (simp add: upt_rec)

text \<open>
  Claim C4 (amended). For a pad with at least two layer slots (every pad of the grid has
  eight) that receives exactly two samples lying under the global sample base, the
  serializer succeeds; layer 0 has no \<open>velocitystart\<close> attribute and \<open>velocityend\<close> 63.0,
  and layer 1 has \<open>velocitystart\<close> 64.0 and no \<open>velocityend\<close> attribute. The claim's
  values 64 and 65 are not the ones written: \<open>floor(127 / 2)\<close> is 63.
\<close>

theorem set_pad_layers_two:
  assumes slots: "2 \<le> length (mappings pad_el)"
    and r0: "\<not> starts_with ''..'' (relpath cwd w0 global_base)"
    and r1: "\<not> starts_with ''..'' (relpath cwd w1 global_base)"
  shows "\<exists>pad'. set_pad_layers cwd pad_el [w0, w1] preset_dir global_base = Inr pad' \<and>
           length (mappings pad') = length (mappings pad_el) \<and>
           velocity_attrs (mappings pad' ! 0) = (None, Some ''63.0'') \<and>
           velocity_attrs (mappings pad' ! 1) = (Some ''64.0'', None)"
proof -
  from slots obtain a b rest where ms: "mappings pad_el = a # b # rest"
    by (cases "mappings pad_el"; cases "tl (mappings pad_el)") auto
  show ?thesis
    using r0 r1
    by (simp add: set_pad_layers_def LAYER_LIMIT_PER_PAD_def velocity_ranges_2 upt_0_2 ms
        set_layer_def wav_to_pathrelative_def velocity_attrs_def float_str_63 float_str_64)
qed

lemma scenario_relpaths:
  "relpath ''/home/user'' ''lib/Kick 1.wav'' ''lib'' = ''Kick 1.wav'' \<and>
   relpath ''/home/user'' ''lib/Kick 2.wav'' ''lib'' = ''Kick 2.wav'' \<and>
   relpath ''/home/user'' ''lib/Kick 1.wav'' ''out'' = ''../lib/Kick 1.wav''"
  by code_simp

text \<open>
  With the samples beside the library and not under it, the relative path starts with
  \<open>..\<close> and the serializer raises \<open>ValueError\<close>.
\<close>

lemma outside_base_raises:
  "relpath ''/home/user'' ''Kick 1.wav'' ''lib'' = ''../Kick 1.wav'' \<and>
   set_pad_layers ''/home/user'' (make_pad 0 36) [''Kick 1.wav'', ''Kick 2.wav''] ''out'' ''lib'' =
     Inl ValueError"
  by code_simp

theorem set_pad_layers_two_witness:
  "2 \<le> length (mappings (make_pad 0 36)) \<and>
   \<not> starts_with ''..'' (relpath ''/home/user'' ''lib/Kick 1.wav'' ''lib'') \<and>
   \<not> starts_with ''..'' (relpath ''/home/user'' ''lib/Kick 2.wav'' ''lib'') \<and>
   (\<exists>pad'. set_pad_layers ''/home/user'' (make_pad 0 36)
              [''lib/Kick 1.wav'', ''lib/Kick 2.wav''] ''out'' ''lib'' = Inr pad' \<and>
           length (mappings pad') = length (mappings (make_pad 0 36)) \<and>
           velocity_attrs (mappings pad' ! 0) = (None, Some ''63.0'') \<and>
           velocity_attrs (mappings pad' ! 1) = (Some ''64.0'', None))"
  using set_pad_layers_two [of "make_pad 0 36" "''/home/user''" "''lib/Kick 1.wav''" "''lib''"
      "''lib/Kick 2.wav''" "''out''"]
  by (simp add: make_pad_def LAYER_LIMIT_PER_PAD_def starts_with_def scenario_relpaths)

text \<open>
  The kit of the specification's scenario, with its two samples in the sample library
  \<open>lib\<close> under the working directory and the preset written to \<open>out\<close>: the serializer
  succeeds, and the velocity attributes of the two layers are 63.0 and 64.0, not 64.0 and
  65.0.
\<close>

theorem set_pad_layers_two_counterexample:
  "map_sum id (\<lambda>p. map (\<lambda>m. (map_of m ''pathrelative'', velocity_attrs m)) (take 2 (mappings p)))
     (set_pad_layers ''/home/user'' (make_pad 0 36)
        [''lib/Kick 1.wav'', ''lib/Kick 2.wav''] ''out'' ''lib'')
   = Inr [(Some ''Kick 1.wav'', None, Some ''63.0''), (Some ''Kick 2.wav'', Some ''64.0'', None)] \<and>
   map_sum id (\<lambda>p. map velocity_attrs (take 2 (mappings p)))
     (set_pad_layers ''/home/user'' (make_pad 0 36)
        [''lib/Kick 1.wav'', ''lib/Kick 2.wav''] ''out'' ''lib'')
   \<noteq> Inr [(None, Some ''64.0''), (Some ''65.0'', None)]"
  by code_simp

subsection \<open>Filtering kits\<close>

lemma map_of_dict_set: "map_of (dict_set k v d) k' = (if k' = k then Some v else map_of d k')"
  by (induction d) auto

lemma fst_dict_set: "fst ` set (dict_set k v d) = insert k (fst ` set d)"
  by (induction d) auto

lemma filter_fold_valid:
  "distinct (map fst kits) \<Longrightarrow>
   map_of (fst (fold (filter_step cfg) kits (V, R))) k =
     (case map_of kits k of
        None \<Rightarrow> map_of V k
      | Some els \<Rightarrow> (case fst (kit_verdict cfg els) of
                      None \<Rightarrow> Some (sort_elements els)
                    | Some r \<Rightarrow> map_of V k))"
proof (induction kits arbitrary: V R)
  case Nil
  then show ?case by simp
next
  case (Cons kit kits)
  obtain n els where kit: "kit = (n, els)" by (cases kit)
  obtain ro d where v: "kit_verdict cfg els = (ro, d)" by (cases "kit_verdict cfg els")
  from Cons.prems kit have nk: "map_of kits n = None" and dk: "distinct (map fst kits)"
    by (auto simp: map_of_eq_None_iff)
  show ?case
  proof (cases ro)
    case None
    then have step: "filter_step cfg (n, els) (V, R) = (dict_set n (sort_elements els) V, R)"
      by (simp add: filter_step_def v)
    show ?thesis
      using Cons.IH [OF dk, of "dict_set n (sort_elements els) V" R] nk
      by (auto simp: step kit v None map_of_dict_set split: option.splits)
  next
    case (Some r)
    then have step: "filter_step cfg (n, els) (V, R) =
        (V, dict_set n \<lparr> reason = r, rej_details = d, rej_elements = els \<rparr> R)"
      by (simp add: filter_step_def v)
    show ?thesis
      using Cons.IH [OF dk, of V "dict_set n \<lparr> reason = r, rej_details = d, rej_elements = els \<rparr> R"] nk
      by (auto simp: step kit v Some map_of_dict_set split: option.splits)
  qed
qed

lemma filter_fold_rejected:
  "distinct (map fst kits) \<Longrightarrow>
   map_of (snd (fold (filter_step cfg) kits (V, R))) k =
     (case map_of kits k of
        None \<Rightarrow> map_of R k
      | Some els \<Rightarrow> (case fst (kit_verdict cfg els) of
                      None \<Rightarrow> map_of R k
                    | Some r \<Rightarrow> Some \<lparr> reason = r, rej_details = snd (kit_verdict cfg els),
                                       rej_elements = els \<rparr>))"
proof (induction kits arbitrary: V R)
  case Nil
  then show ?case by simp
next
  case (Cons kit kits)
  obtain n els where kit: "kit = (n, els)" by (cases kit)
  obtain ro d where v: "kit_verdict cfg els = (ro, d)" by (cases "kit_verdict cfg els")
  from Cons.prems kit have nk: "map_of kits n = None" and dk: "distinct (map fst kits)"
    by (auto simp: map_of_eq_None_iff)
  show ?case
  proof (cases ro)
    case None
    then have step: "filter_step cfg (n, els) (V, R) = (dict_set n (sort_elements els) V, R)"
      by (simp add: filter_step_def v)
    show ?thesis
      using Cons.IH [OF dk, of "dict_set n (sort_elements els) V" R] nk
      by (auto simp: step kit v None map_of_dict_set split: option.splits)
  next
    case (Some r)
    then have step: "filter_step cfg (n, els) (V, R) =
        (V, dict_set n \<lparr> reason = r, rej_details = d, rej_elements = els \<rparr> R)"
      by (simp add: filter_step_def v)
    show ?thesis
      using Cons.IH [OF dk, of V "dict_set n \<lparr> reason = r, rej_details = d, rej_elements = els \<rparr> R"] nk
      by (auto simp: step kit v Some map_of_dict_set split: option.splits)
  qed
qed

lemma filter_kits_valid:
  "distinct (map fst kits) \<Longrightarrow>
   map_of (fst (filter_kits cfg kits)) k =
     (case map_of kits k of
        None \<Rightarrow> None
      | Some els \<Rightarrow> (case fst (kit_verdict cfg els) of
                      None \<Rightarrow> Some (sort_elements els)
                    | Some r \<Rightarrow> None))"
  unfolding filter_kits_def by (simp add: filter_fold_valid split: option.splits)

lemma filter_kits_rejected:
  "distinct (map fst kits) \<Longrightarrow>
   map_of (snd (filter_kits cfg kits)) k =
     (case map_of kits k of
        None \<Rightarrow> None
      | Some els \<Rightarrow> (case fst (kit_verdict cfg els) of
                      None \<Rightarrow> None
                    | Some r \<Rightarrow> Some \<lparr> reason = r, rej_details = snd (kit_verdict cfg els),
                                       rej_elements = els \<rparr>))"
  unfolding filter_kits_def by (simp add: filter_fold_rejected split: option.splits)


lemma kit_verdict_reject:
  assumes "overflow_policy cfg = ''reject''"
    and "overflow_info cfg els \<noteq> [] \<or> kit_other_count els \<noteq> 0"
  shows "fst (kit_verdict cfg els) = Some ''overflow_or_other''"
  using assms by (auto simp: kit_verdict_def Let_def)

lemma kit_verdict_accept_threshold:
  "fst (kit_verdict cfg els) = None \<Longrightarrow> threshold_reason cfg els = None"
  by (auto simp: kit_verdict_def Let_def split: if_splits)

lemma trash_capacity_of_nonneg: "0 \<le> trash_capacity_of cfg"
  by (simp add: trash_capacity_of_def split: option.splits)

lemma trash_capacity_of_length:
  "trash_capacity_of cfg =
     (case trash_notes cfg of None \<Rightarrow> 0 | Some notes \<Rightarrow> int (length notes) * 8)"
  by (simp add: trash_capacity_of_def LAYER_LIMIT_PER_PAD_def split: option.splits)

lemma no_excess_no_need:
  "overflow_info cfg els = [] \<Longrightarrow> kit_other_count els = 0 \<Longrightarrow> total_trash_needed cfg els = 0"
  by (simp add: total_trash_needed_def)

lemma kit_verdict_trash_insufficient:
  assumes "overflow_policy cfg = ''trash''"
    and "total_trash_needed cfg els > trash_capacity_of cfg"
  shows "kit_verdict cfg els =
           (Some ''trash_zone_insufficient'',
            \<lparr> trash_needed = Some (total_trash_needed cfg els),
              trash_capacity = Some (trash_capacity_of cfg),
              overflow = Some (overflow_info cfg els),
              other_count = Some (kit_other_count els) \<rparr>)"
proof -
  have "0 < total_trash_needed cfg els"
    using assms(2) trash_capacity_of_nonneg [of cfg] by linarith
  then have "overflow_info cfg els \<noteq> [] \<or> kit_other_count els \<noteq> 0"
    using no_excess_no_need [of cfg els] by auto
  then show ?thesis
    using assms by (auto simp: kit_verdict_def Let_def)
qed

lemma kit_verdict_trash_fits:
  assumes "overflow_policy cfg = ''trash''"
    and "total_trash_needed cfg els \<le> trash_capacity_of cfg"
  shows "fst (kit_verdict cfg els) = threshold_reason cfg els"
  using assms by (auto simp: kit_verdict_def Let_def)

text \<open>
  Claim C3 (amended). Under overflow policy \<open>reject\<close>, a kit that has overflow or
  \<open>other\<close> files is rejected with reason \<open>overflow_or_other\<close>, whatever the threshold
  checks found: the overflow check assigns the reason last and so replaces a threshold
  reason that was set before it.
\<close>

theorem reject_overflow_supersedes:
  assumes "distinct (map fst kits)"
    and "map_of kits k = Some els"
    and "overflow_policy cfg = ''reject''"
    and "overflow_info cfg els \<noteq> [] \<or> kit_other_count els \<noteq> 0"
  shows "map_of (fst (filter_kits cfg kits)) k = None \<and>
         map_option reason (map_of (snd (filter_kits cfg kits)) k) = Some ''overflow_or_other''"
  using assms(2) kit_verdict_reject [OF assms(3,4)]
  by (simp add: filter_kits_valid [OF assms(1)] filter_kits_rejected [OF assms(1)])

theorem reject_overflow_supersedes_witness:
  "distinct (map fst [(''Demo'', [(''other'', [''x.wav''])])]) \<and>
   map_of [(''Demo'', [(''other'', [''x.wav''])])] ''Demo'' = Some [(''other'', [''x.wav''])] \<and>
   kit_other_count [(''other'', [''x.wav''])] \<noteq> 0 \<and>
   map_option reason
     (map_of (snd (filter_kits
        \<lparr> min_total_samples = 0, exclude_only_other = False, exclude_mixed_other = False,
          mapping = None, overflow_policy = ''reject'', trash_notes = None \<rparr>
        [(''Demo'', [(''other'', [''x.wav''])])])) ''Demo'') = Some ''overflow_or_other''"
  using reject_overflow_supersedes [of "[(''Demo'', [(''other'', [''x.wav''])])]" "''Demo''"
      "[(''other'', [''x.wav''])]"
      "\<lparr> min_total_samples = 0, exclude_only_other = False, exclude_mixed_other = False,
          mapping = None, overflow_policy = ''reject'', trash_notes = None \<rparr>"]
  by (simp add: kit_other_count_def dict_get_def)

text \<open>
  A kit of one \<open>other\<close> file under a minimum of five samples fails the threshold check
  (\<open>too_few_samples\<close>) and has an \<open>other\<close> file; under policy \<open>reject\<close> the reason
  reported is \<open>overflow_or_other\<close>, not the earlier threshold reason.
\<close>

theorem first_reason_wins_counterexample:
  "threshold_reason
     \<lparr> min_total_samples = 5, exclude_only_other = False, exclude_mixed_other = False,
       mapping = None, overflow_policy = ''reject'', trash_notes = None \<rparr>
     [(''other'', [''x.wav''])] = Some ''too_few_samples'' \<and>
   kit_other_count [(''other'', [''x.wav''])] = 1 \<and>
   map_option reason
     (map_of (snd (filter_kits
        \<lparr> min_total_samples = 5, exclude_only_other = False, exclude_mixed_other = False,
          mapping = None, overflow_policy = ''reject'', trash_notes = None \<rparr>
        [(''Demo'', [(''other'', [''x.wav''])])])) ''Demo'') = Some ''overflow_or_other'' \<and>
   map_option reason
     (map_of (snd (filter_kits
        \<lparr> min_total_samples = 5, exclude_only_other = False, exclude_mixed_other = False,
          mapping = None, overflow_policy = ''reject'', trash_notes = None \<rparr>
        [(''Demo'', [(''other'', [''x.wav''])])])) ''Demo'') \<noteq> Some ''too_few_samples''"
  by code_simp


lemma sort_elements_nth:
  "i < length els \<Longrightarrow>
     fst (sort_elements els ! i) = fst (els ! i) \<and>
     snd (sort_elements els ! i) = sort_samples_by_trailing_number (snd (els ! i))"
  by (simp add: sort_elements_def split_beta)

lemma sort_samples_sorted: "sorted (map key (sort_samples_by_trailing_number paths))"
  by (simp add: sort_samples_by_trailing_number_def)

lemma sort_samples_mset: "mset (sort_samples_by_trailing_number paths) = mset paths"
  by (simp add: sort_samples_by_trailing_number_def)

text \<open>
  The needed count and the trash capacity of the specification are the numbers the loop
  of \<open>filter_kits\<close> computes: the sum over the overflow entries of count minus capacity
  is the sum of the excesses of the real categories, and \<open>elements.get("other", [])\<close> is
  the list of the files of \<open>other\<close>.
\<close>

lemma fold_excess:
  "fold (\<lambda>info acc. acc + (int (count info) - int (capacity info))) xs a =
     a + sum_list (map (\<lambda>info. int (count info) - int (capacity info)) xs)"
  by (induction xs arbitrary: a) simp_all

lemma category_capacity_declared:
  "category_capacity m c = declared_capacity (Some m) c"
  by (simp add: category_capacity_def declared_capacity_def LAYER_LIMIT_PER_PAD_def
      split: option.splits)

lemma overflow_of_excess:
  "sum_list (map (\<lambda>info. int (count info) - int (capacity info)) (overflow_of m item)) =
     int (category_excess (Some m) item)"
  by (simp add: overflow_of_def category_excess_def Let_def category_capacity_declared
      split: option.splits)

lemma overflow_info_excess:
  "sum_list (map (\<lambda>info. int (count info) - int (capacity info)) (overflow_info cfg els)) =
     int (sum_list (map (category_excess (mapping cfg)) els))"
proof (cases "mapping cfg")
  case None
  have "\<And>item. category_excess None item = 0"
    by (simp add: category_excess_def declared_capacity_def)
  then show ?thesis by (simp add: overflow_info_def None)
next
  case (Some m)
  show ?thesis
  proof (cases "m = []")
    case True
    have "\<And>item. category_excess (Some []) item = 0"
      by (simp add: category_excess_def declared_capacity_def)
    then show ?thesis by (simp add: overflow_info_def Some True)
  next
    case False
    have "sum_list (map (\<lambda>info. int (count info) - int (capacity info))
             (concat (map (overflow_of m) els))) =
          int (sum_list (map (category_excess (Some m)) els))"
      by (induction els) (simp_all add: overflow_of_excess)
    then show ?thesis by (simp add: overflow_info_def Some False)
  qed
qed

lemma other_files_dict:
  "distinct (map fst els) \<Longrightarrow> other_files els = dict_get els ''other'' []"
proof (induction els)
  case Nil
  show ?case by (simp add: other_files_def dict_get_def)
next
  case (Cons item els)
  obtain c fs where item: "item = (c, fs)" by (cases item)
  from Cons.prems have d: "distinct (map fst els)" and n: "c \<notin> fst ` set els"
    by (auto simp: item)
  have ih: "other_files els = dict_get els ''other'' []" using Cons.IH [OF d] .
  show ?case
  proof (cases "c = ''other''")
    case True
    with n have "map_of els ''other'' = None" by (simp add: map_of_eq_None_iff)
    then have "other_files els = []" using ih by (simp add: dict_get_def)
    then show ?thesis using True by (simp add: other_files_def dict_get_def item)
  next
    case False
    then show ?thesis using ih by (simp add: other_files_def dict_get_def item)
  qed
qed

lemma total_trash_needed_count:
  assumes "distinct (map fst els)"
  shows "total_trash_needed cfg els = int (needed_count (mapping cfg) els)"
  by (simp add: total_trash_needed_def fold_excess overflow_info_excess needed_count_def
      kit_other_count_def other_files_dict [OF assms])

lemma trash_capacity_zone: "trash_capacity_of cfg = int (trash_zone_capacity (trash_notes cfg))"
  by (simp add: trash_capacity_of_def trash_zone_capacity_def LAYER_LIMIT_PER_PAD_def
      split: option.splits)

lemma threshold_reason_codes:
  "threshold_reason cfg els \<in>
     {None, Some ''too_few_samples'', Some ''only_other'', Some ''mixed_other''}"
  by (simp add: threshold_reason_def Let_def)

text \<open>
  Claim C7. Under overflow policy \<open>trash\<close> the trash capacity is the number of trash
  notes times 8, and the needed count of a kit is the sum of the excesses of its real
  categories over their capacities plus the number of its \<open>other\<close> files. A kit whose
  needed count exceeds the trash capacity is rejected with reason
  \<open>trash_zone_insufficient\<close>, and its details carry the needed count, the capacity,
  the overflow entries and the number of \<open>other\<close> files; a kit whose needed count fits
  is rejected for a threshold reason only, never for overflow, and accepted when there is
  none.
\<close>

theorem trash_zone_insufficient_rejection:
  assumes "distinct (map fst kits)"
    and "map_of kits k = Some els"
    and "distinct (map fst els)"
    and "overflow_policy cfg = ''trash''"
  shows "(needed_count (mapping cfg) els > trash_zone_capacity (trash_notes cfg) \<longrightarrow>
            map_of (fst (filter_kits cfg kits)) k = None \<and>
            (\<exists>r. map_of (snd (filter_kits cfg kits)) k = Some r \<and>
                 reason r = ''trash_zone_insufficient'' \<and>
                 trash_needed (rej_details r) = Some (int (needed_count (mapping cfg) els)) \<and>
                 trash_capacity (rej_details r) =
                   Some (int (trash_zone_capacity (trash_notes cfg))) \<and>
                 overflow (rej_details r) = Some (overflow_info cfg els) \<and>
                 other_count (rej_details r) = Some (length (other_files els)) \<and>
                 rej_elements r = els)) \<and>
         (needed_count (mapping cfg) els \<le> trash_zone_capacity (trash_notes cfg) \<longrightarrow>
            map_option reason (map_of (snd (filter_kits cfg kits)) k) = threshold_reason cfg els \<and>
            map_option reason (map_of (snd (filter_kits cfg kits)) k)
              \<noteq> Some ''trash_zone_insufficient'' \<and>
            map_option reason (map_of (snd (filter_kits cfg kits)) k)
              \<noteq> Some ''overflow_or_other'' \<and>
            (threshold_reason cfg els = None \<longrightarrow>
               map_of (fst (filter_kits cfg kits)) k = Some (sort_elements els)))"
proof -
  note n = total_trash_needed_count [OF assms(3), of cfg]
  note c = trash_capacity_zone [of cfg]
  have oc: "kit_other_count els = length (other_files els)"
    by (simp add: kit_other_count_def other_files_dict [OF assms(3)])
  have big: "needed_count (mapping cfg) els > trash_zone_capacity (trash_notes cfg) \<longrightarrow>
            map_of (fst (filter_kits cfg kits)) k = None \<and>
            (\<exists>r. map_of (snd (filter_kits cfg kits)) k = Some r \<and>
                 reason r = ''trash_zone_insufficient'' \<and>
                 trash_needed (rej_details r) = Some (int (needed_count (mapping cfg) els)) \<and>
                 trash_capacity (rej_details r) =
                   Some (int (trash_zone_capacity (trash_notes cfg))) \<and>
                 overflow (rej_details r) = Some (overflow_info cfg els) \<and>
                 other_count (rej_details r) = Some (length (other_files els)) \<and>
                 rej_elements r = els)"
  proof (rule impI)
    assume "needed_count (mapping cfg) els > trash_zone_capacity (trash_notes cfg)"
    then have b: "trash_capacity_of cfg < total_trash_needed cfg els"
      unfolding n c by simp
    note v = kit_verdict_trash_insufficient [OF assms(4) b]
    have a1: "map_of (fst (filter_kits cfg kits)) k = None"
      using assms(2) v by (simp add: filter_kits_valid [OF assms(1)])
    have a2: "map_of (snd (filter_kits cfg kits)) k =
              Some \<lparr> reason = ''trash_zone_insufficient'',
                     rej_details =
                       \<lparr> trash_needed = Some (total_trash_needed cfg els),
                         trash_capacity = Some (trash_capacity_of cfg),
                         overflow = Some (overflow_info cfg els),
                         other_count = Some (kit_other_count els) \<rparr>,
                     rej_elements = els \<rparr>"
      using assms(2) v by (simp add: filter_kits_rejected [OF assms(1)])
    show "map_of (fst (filter_kits cfg kits)) k = None \<and>
            (\<exists>r. map_of (snd (filter_kits cfg kits)) k = Some r \<and>
                 reason r = ''trash_zone_insufficient'' \<and>
                 trash_needed (rej_details r) = Some (int (needed_count (mapping cfg) els)) \<and>
                 trash_capacity (rej_details r) =
                   Some (int (trash_zone_capacity (trash_notes cfg))) \<and>
                 overflow (rej_details r) = Some (overflow_info cfg els) \<and>
                 other_count (rej_details r) = Some (length (other_files els)) \<and>
                 rej_elements r = els)"
      using a1 a2 by (simp add: n c oc)
  qed
  have fits: "needed_count (mapping cfg) els \<le> trash_zone_capacity (trash_notes cfg) \<longrightarrow>
            map_option reason (map_of (snd (filter_kits cfg kits)) k) = threshold_reason cfg els \<and>
            map_option reason (map_of (snd (filter_kits cfg kits)) k)
              \<noteq> Some ''trash_zone_insufficient'' \<and>
            map_option reason (map_of (snd (filter_kits cfg kits)) k)
              \<noteq> Some ''overflow_or_other'' \<and>
            (threshold_reason cfg els = None \<longrightarrow>
               map_of (fst (filter_kits cfg kits)) k = Some (sort_elements els))"
  proof (rule impI)
    assume "needed_count (mapping cfg) els \<le> trash_zone_capacity (trash_notes cfg)"
    then have f: "total_trash_needed cfg els \<le> trash_capacity_of cfg"
      unfolding n c by simp
    note v = kit_verdict_trash_fits [OF assms(4) f]
    have b1: "map_option reason (map_of (snd (filter_kits cfg kits)) k) = threshold_reason cfg els"
      using assms(2) v
      by (simp add: filter_kits_rejected [OF assms(1)] split: option.splits)
    have b2: "threshold_reason cfg els \<noteq> Some ''trash_zone_insufficient''"
      and b3: "threshold_reason cfg els \<noteq> Some ''overflow_or_other''"
      using threshold_reason_codes [of cfg els] by auto
    have b4: "threshold_reason cfg els = None \<longrightarrow>
               map_of (fst (filter_kits cfg kits)) k = Some (sort_elements els)"
      using assms(2) v by (simp add: filter_kits_valid [OF assms(1)])
    show "map_option reason (map_of (snd (filter_kits cfg kits)) k) = threshold_reason cfg els \<and>
            map_option reason (map_of (snd (filter_kits cfg kits)) k)
              \<noteq> Some ''trash_zone_insufficient'' \<and>
            map_option reason (map_of (snd (filter_kits cfg kits)) k)
              \<noteq> Some ''overflow_or_other'' \<and>
            (threshold_reason cfg els = None \<longrightarrow>
               map_of (fst (filter_kits cfg kits)) k = Some (sort_elements els))"
      unfolding b1 using b2 b3 b4 by simp
  qed
  from big fits show ?thesis by (rule conjI)
qed

lemma nine_and_other_needed:
  "needed_count (mapping (scenario_cfg ''trash'' []))
     [(''kick'', take 9 ten_kicks), (''other'', [''x.wav''])] = 2"
  by code_simp

lemma empty_trash_capacity: "trash_zone_capacity (trash_notes (scenario_cfg ''trash'' [])) = 0"
  by code_simp

theorem trash_zone_insufficient_rejection_witness:
  "distinct (map fst [(''Demo'', [(''kick'', take 9 ten_kicks), (''other'', [''x.wav''])])]) \<and>
   distinct (map fst [(''kick'', take 9 ten_kicks), (''other'', [''x.wav''])]) \<and>
   overflow_policy (scenario_cfg ''trash'' []) = ''trash'' \<and>
   needed_count (mapping (scenario_cfg ''trash'' []))
     [(''kick'', take 9 ten_kicks), (''other'', [''x.wav''])] = 2 \<and>
   trash_zone_capacity (trash_notes (scenario_cfg ''trash'' [])) = 0 \<and>
   length (other_files [(''kick'', take 9 ten_kicks), (''other'', [''x.wav''])]) = 1 \<and>
   (\<exists>r. map_of (snd (filter_kits (scenario_cfg ''trash'' [])
              [(''Demo'', [(''kick'', take 9 ten_kicks), (''other'', [''x.wav''])])])) ''Demo'' =
          Some r \<and>
        reason r = ''trash_zone_insufficient'' \<and>
        trash_needed (rej_details r) = Some 2 \<and>
        trash_capacity (rej_details r) = Some 0 \<and>
        other_count (rej_details r) = Some 1)"
proof -
  let ?els = "[(''kick'', take 9 ten_kicks), (''other'', [''x.wav''])]"
  let ?kits = "[(''Demo'', ?els)]"
  let ?cfg = "scenario_cfg ''trash'' []"
  have d1: "distinct (map fst ?kits)" by simp
  have d2: "distinct (map fst ?els)" by simp
  have m: "map_of ?kits ''Demo'' = Some ?els" by simp
  have p: "overflow_policy ?cfg = ''trash''" by (simp add: scenario_cfg_def)
  have o: "length (other_files ?els) = 1" by (simp add: other_files_def)
  note t = trash_zone_insufficient_rejection [OF d1 m d2 p, THEN conjunct1, rule_format]
  have g: "trash_zone_capacity (trash_notes ?cfg) < needed_count (mapping ?cfg) ?els"
    by (simp add: nine_and_other_needed empty_trash_capacity)
  from t [OF g] obtain r where
    r: "map_of (snd (filter_kits ?cfg ?kits)) ''Demo'' = Some r"
      "reason r = ''trash_zone_insufficient''"
      "trash_needed (rej_details r) = Some (int (needed_count (mapping ?cfg) ?els))"
      "trash_capacity (rej_details r) = Some (int (trash_zone_capacity (trash_notes ?cfg)))"
      "other_count (rej_details r) = Some (length (other_files ?els))"
    by blast
  from r have ex: "\<exists>r. map_of (snd (filter_kits ?cfg ?kits)) ''Demo'' = Some r \<and>
        reason r = ''trash_zone_insufficient'' \<and>
        trash_needed (rej_details r) = Some 2 \<and>
        trash_capacity (rej_details r) = Some 0 \<and>
        other_count (rej_details r) = Some 1"
    by (simp add: nine_and_other_needed empty_trash_capacity o)
  from d1 d2 p o ex show ?thesis
    by (simp add: nine_and_other_needed empty_trash_capacity)
qed

subsection \<open>Ordering of samples\<close>

lemma key_le_cases:
  "key p \<le> key q \<longleftrightarrow>
     (case (sample_index p, sample_index q) of
        (Some a, Some b) \<Rightarrow> a \<le> b
      | (Some a, None) \<Rightarrow> True
      | (None, Some b) \<Rightarrow> False
      | (None, None) \<Rightarrow> lower (path_stem p) \<le> lower (path_stem q))"
  by (auto simp: key_def sample_index_def less_eq_prod_def Let_def split: option.splits)

text \<open>
  Claim C8 (amended). For every list of file paths, the ordering rule rearranges the
  list so that files with a trailing index come first, in ascending numeric order of the
  index; every file without a trailing index comes after every file that has one, and
  these files are in alphabetical order of the lower-cased base name. The sort is stable:
  files with the same index (and files without index with the same lower-cased base
  name) keep their input order; the base name is no secondary key among indexed files.
\<close>

theorem sort_samples_stable_order:
  "mset (sort_samples_by_trailing_number paths) = mset paths \<and>
   (\<forall>i j. i < j \<and> j < length (sort_samples_by_trailing_number paths) \<longrightarrow>
      (case (sample_index (sort_samples_by_trailing_number paths ! i),
             sample_index (sort_samples_by_trailing_number paths ! j)) of
         (Some a, Some b) \<Rightarrow> a \<le> b
       | (Some a, None) \<Rightarrow> True
       | (None, Some b) \<Rightarrow> False
       | (None, None) \<Rightarrow>
           lower (path_stem (sort_samples_by_trailing_number paths ! i))
             \<le> lower (path_stem (sort_samples_by_trailing_number paths ! j)))) \<and>
   (\<forall>k. filter (\<lambda>p. key p = k) (sort_samples_by_trailing_number paths) =
          filter (\<lambda>p. key p = k) paths)"
proof (intro conjI allI impI)
  show "mset (sort_samples_by_trailing_number paths) = mset paths"
    by (simp add: sort_samples_by_trailing_number_def)
next
  fix i j
  let ?r = "sort_samples_by_trailing_number paths"
  assume ij: "i < j \<and> j < length ?r"
  have "sorted (map key ?r)" by (simp add: sort_samples_by_trailing_number_def)
  then have "map key ?r ! i \<le> map key ?r ! j"
    using ij by (simp add: sorted_iff_nth_mono)
  then have "key (?r ! i) \<le> key (?r ! j)" using ij by simp
  then show "case (sample_index (?r ! i), sample_index (?r ! j)) of
         (Some a, Some b) \<Rightarrow> a \<le> b
       | (Some a, None) \<Rightarrow> True
       | (None, Some b) \<Rightarrow> False
       | (None, None) \<Rightarrow> lower (path_stem (?r ! i)) \<le> lower (path_stem (?r ! j))"
    by (simp only: key_le_cases)
next
  fix k
  show "filter (\<lambda>p. key p = k) (sort_samples_by_trailing_number paths) =
          filter (\<lambda>p. key p = k) paths"
    by (simp add: sort_samples_by_trailing_number_def sort_key_stable)
qed

lemma mixed_sorted:
  "sort_samples_by_trailing_number
     [''b 1.wav'', ''a 1.wav'', ''Zed.wav'', ''abc.wav'', ''k 10.wav'', ''k 9.wav''] =
   [''b 1.wav'', ''a 1.wav'', ''k 9.wav'', ''k 10.wav'', ''abc.wav'', ''Zed.wav'']"
  by code_simp

lemma mixed_indices:
  "sample_index ''a 1.wav'' = Some 1 \<and> sample_index ''k 9.wav'' = Some 9 \<and>
   sample_index ''abc.wav'' = None"
  by code_simp

theorem sort_samples_stable_order_witness:
  "(1::nat) < 2 \<and>
   2 < length (sort_samples_by_trailing_number
     [''b 1.wav'', ''a 1.wav'', ''Zed.wav'', ''abc.wav'', ''k 10.wav'', ''k 9.wav'']) \<and>
   sample_index (sort_samples_by_trailing_number
     [''b 1.wav'', ''a 1.wav'', ''Zed.wav'', ''abc.wav'', ''k 10.wav'', ''k 9.wav''] ! 1) = Some 1 \<and>
   sample_index (sort_samples_by_trailing_number
     [''b 1.wav'', ''a 1.wav'', ''Zed.wav'', ''abc.wav'', ''k 10.wav'', ''k 9.wav''] ! 2) = Some 9 \<and>
   mset (sort_samples_by_trailing_number
     [''b 1.wav'', ''a 1.wav'', ''Zed.wav'', ''abc.wav'', ''k 10.wav'', ''k 9.wav'']) =
   mset [''b 1.wav'', ''a 1.wav'', ''Zed.wav'', ''abc.wav'', ''k 10.wav'', ''k 9.wav'']"
  using sort_samples_stable_order
    [of "[''b 1.wav'', ''a 1.wav'', ''Zed.wav'', ''abc.wav'', ''k 10.wav'', ''k 9.wav'']"]
  by (simp add: mixed_sorted mixed_indices)

text \<open>
  Two files with the same trailing index are left in input order, \<open>b 1.wav\<close> before
  \<open>a 1.wav\<close>: the result is not ordered by index first and lower-cased base name
  second.
\<close>

theorem secondary_key_counterexample:
  "sort_samples_by_trailing_number [''b 1.wav'', ''a 1.wav''] = [''b 1.wav'', ''a 1.wav''] \<and>
   ordering_rule_key ''b 1.wav'' = (0, 1, ''b 1'') \<and>
   ordering_rule_key ''a 1.wav'' = (0, 1, ''a 1'') \<and>
   \<not> sorted (map ordering_rule_key (sort_samples_by_trailing_number [''b 1.wav'', ''a 1.wav'']))"
  by code_simp

subsection \<open>Accepted and rejected kits\<close>

text \<open>
  The statistics of \<open>kit_stats\<close> are the quantities of the specification: the total is
  the number of files of the kit, and on a dictionary (distinct categories) the two flags
  are the only-other and mixed-other properties.
\<close>

lemma kit_stats_total: "total (kit_stats els) = sample_count els"
  by (induction els) (simp_all add: kit_stats_def sample_count_def split_beta)

lemma keys_card: "distinct (map fst els) \<Longrightarrow> card (fst ` set els) = length els"
  using distinct_card [of "map fst els"] by simp

lemma kit_stats_only_other:
  assumes "distinct (map fst els)"
  shows "only_other (kit_stats els) = is_only_other els"
proof -
  have c: "card (fst ` set els) = length els" by (rule keys_card [OF assms])
  have "(''other'' \<in> fst ` set els \<and> length els = 1) = (fst ` set els = {''other''})"
  proof
    assume h: "''other'' \<in> fst ` set els \<and> length els = 1"
    then have "card (fst ` set els) = 1" using c by simp
    then obtain x where x: "fst ` set els = {x}" by (auto simp: card_1_singleton_iff)
    from h x have "x = ''other''" by simp
    with x show "fst ` set els = {''other''}" by simp
  next
    assume h: "fst ` set els = {''other''}"
    then have "card (fst ` set els) = 1" by simp
    then have "length els = 1" using c by simp
    with h show "''other'' \<in> fst ` set els \<and> length els = 1" by simp
  qed
  then show ?thesis by (simp add: kit_stats_def is_only_other_def)
qed

lemma kit_stats_mixed_other:
  assumes "distinct (map fst els)"
  shows "mixed_other (kit_stats els) = is_mixed_other els"
proof (cases "''other'' \<in> fst ` set els")
  case False
  then show ?thesis by (simp add: kit_stats_def is_mixed_other_def)
next
  case True
  have c: "card (fst ` set els) = length els" by (rule keys_card [OF assms])
  have ne: "els \<noteq> []" using True by auto
  have eq: "(fst ` set els = {''other''}) = (length els = 1)"
  proof
    assume "fst ` set els = {''other''}"
    then have "card (fst ` set els) = 1" by simp
    then show "length els = 1" using c by simp
  next
    assume "length els = 1"
    then have "card (fst ` set els) = 1" using c by simp
    then obtain x where x: "fst ` set els = {x}" by (auto simp: card_1_singleton_iff)
    from True x have "x = ''other''" by simp
    with x show "fst ` set els = {''other''}" by simp
  qed
  have m: "mixed_other (kit_stats els) = (1 < length els)"
    using True by (simp add: kit_stats_def)
  have i: "is_mixed_other els = (length els \<noteq> 1)"
    using True by (simp add: is_mixed_other_def eq)
  have "(1 < length els) = (length els \<noteq> 1)"
    using ne by (cases els) simp_all
  then show ?thesis by (simp only: m i)
qed

lemma threshold_none:
  assumes "distinct (map fst els)" and "threshold_reason cfg els = None"
  shows "min_total_samples cfg \<le> int (sample_count els)"
    and "exclude_only_other cfg \<longrightarrow> \<not> is_only_other els"
    and "exclude_mixed_other cfg \<longrightarrow> \<not> is_mixed_other els"
proof -
  have t1: "min_total_samples cfg \<le> int (total (kit_stats els))"
    using assms(2) by (auto simp: threshold_reason_def Let_def split: if_splits)
  have t2: "\<not> (exclude_only_other cfg \<and> only_other (kit_stats els))"
    using assms(2) by (auto simp: threshold_reason_def Let_def split: if_splits)
  have t3: "\<not> (exclude_mixed_other cfg \<and> mixed_other (kit_stats els))"
    using assms(2) by (auto simp: threshold_reason_def Let_def split: if_splits)
  show "min_total_samples cfg \<le> int (sample_count els)"
    using t1 by (simp add: kit_stats_total)
  show "exclude_only_other cfg \<longrightarrow> \<not> is_only_other els"
    using t2 by (simp add: kit_stats_only_other [OF assms(1)])
  show "exclude_mixed_other cfg \<longrightarrow> \<not> is_mixed_other els"
    using t3 by (simp add: kit_stats_mixed_other [OF assms(1)])
qed

lemma kit_verdict_reason_codes:
  "fst (kit_verdict cfg els) = Some r \<Longrightarrow> r \<in> set reason_codes"
  using threshold_reason_codes [of cfg els]
  by (auto simp: kit_verdict_def Let_def reason_codes_def split: if_splits)

lemma sort_samples_order:
  "i < j \<Longrightarrow> j < length (sort_samples_by_trailing_number paths) \<Longrightarrow>
      (case (sample_index (sort_samples_by_trailing_number paths ! i),
             sample_index (sort_samples_by_trailing_number paths ! j)) of
         (Some a, Some b) \<Rightarrow> a \<le> b
       | (Some a, None) \<Rightarrow> True
       | (None, Some b) \<Rightarrow> False
       | (None, None) \<Rightarrow>
           lower (path_stem (sort_samples_by_trailing_number paths ! i))
             \<le> lower (path_stem (sort_samples_by_trailing_number paths ! j)))"
proof -
  let ?r = "sort_samples_by_trailing_number paths"
  assume ij: "i < j" "j < length ?r"
  have "sorted (map key ?r)" by (simp add: sort_samples_by_trailing_number_def)
  then have "map key ?r ! i \<le> map key ?r ! j"
    using ij by (simp add: sorted_iff_nth_mono)
  then have "key (?r ! i) \<le> key (?r ! j)" using ij by simp
  then show ?thesis by (simp only: key_le_cases)
qed

lemma sort_samples_stable:
  "filter (\<lambda>p. key p = k) (sort_samples_by_trailing_number paths) =
     filter (\<lambda>p. key p = k) paths"
  by (simp add: sort_samples_by_trailing_number_def sort_key_stable)

text \<open>
  Claim C5 (amended). For a dictionary of kits, every kit that \<open>filter_kits\<close> accepts has
  a total sample count of at least the minimum, is not only-other when that exclusion is
  on and not mixed-other when that exclusion is on, and is stored under its categories
  with each file list a stable sort of the original one: a rearrangement of it in which
  files with a trailing index come first in ascending order of the index, files without
  index come last in order of the lower-cased base name, and files of equal key keep their
  original order (the base name is no secondary key among indexed files). Every rejected
  kit is absent from the accepted ones and stored with its original elements, one of the
  five reason codes and the details the checks reached.
\<close>

theorem accepted_kits_pass_thresholds:
  assumes "distinct (map fst kits)"
    and "\<forall>kit \<in> set kits. distinct (map fst (snd kit))"
  shows "(\<forall>k v. map_of (fst (filter_kits cfg kits)) k = Some v \<longrightarrow>
            (\<exists>els. map_of kits k = Some els \<and>
               min_total_samples cfg \<le> int (sample_count els) \<and>
               (exclude_only_other cfg \<longrightarrow> \<not> is_only_other els) \<and>
               (exclude_mixed_other cfg \<longrightarrow> \<not> is_mixed_other els) \<and>
               map fst v = map fst els \<and>
               (\<forall>n < length els.
                  mset (snd (v ! n)) = mset (snd (els ! n)) \<and>
                  (\<forall>i j. i < j \<and> j < length (snd (v ! n)) \<longrightarrow>
                     (case (sample_index (snd (v ! n) ! i), sample_index (snd (v ! n) ! j)) of
                        (Some a, Some b) \<Rightarrow> a \<le> b
                      | (Some a, None) \<Rightarrow> True
                      | (None, Some b) \<Rightarrow> False
                      | (None, None) \<Rightarrow>
                          lower (path_stem (snd (v ! n) ! i))
                            \<le> lower (path_stem (snd (v ! n) ! j)))) \<and>
                  (\<forall>x. filter (\<lambda>p. key p = x) (snd (v ! n)) =
                        filter (\<lambda>p. key p = x) (snd (els ! n)))))) \<and>
         (\<forall>k r. map_of (snd (filter_kits cfg kits)) k = Some r \<longrightarrow>
            map_of (fst (filter_kits cfg kits)) k = None \<and>
            map_of kits k = Some (rej_elements r) \<and>
            reason r \<in> set reason_codes \<and>
            kit_verdict cfg (rej_elements r) = (Some (reason r), rej_details r))"
proof (intro conjI allI impI)
  fix k v
  assume a: "map_of (fst (filter_kits cfg kits)) k = Some v"
  from a obtain els where els: "map_of kits k = Some els"
    by (auto simp: filter_kits_valid [OF assms(1)] split: option.splits)
  from a els have acc: "fst (kit_verdict cfg els) = None" and v: "v = sort_elements els"
    by (auto simp: filter_kits_valid [OF assms(1)] split: option.splits)
  from els have "(k, els) \<in> set kits" by (rule map_of_SomeD)
  with assms(2) have d: "distinct (map fst els)" by auto
  have thr: "threshold_reason cfg els = None"
    using acc by (rule kit_verdict_accept_threshold)
  note t = threshold_none [OF d thr]
  have cats: "map fst v = map fst els" by (simp add: v sort_elements_def split_beta)
  have each: "\<forall>n < length els.
                  mset (snd (v ! n)) = mset (snd (els ! n)) \<and>
                  (\<forall>i j. i < j \<and> j < length (snd (v ! n)) \<longrightarrow>
                     (case (sample_index (snd (v ! n) ! i), sample_index (snd (v ! n) ! j)) of
                        (Some a, Some b) \<Rightarrow> a \<le> b
                      | (Some a, None) \<Rightarrow> True
                      | (None, Some b) \<Rightarrow> False
                      | (None, None) \<Rightarrow>
                          lower (path_stem (snd (v ! n) ! i))
                            \<le> lower (path_stem (snd (v ! n) ! j)))) \<and>
                  (\<forall>x. filter (\<lambda>p. key p = x) (snd (v ! n)) =
                        filter (\<lambda>p. key p = x) (snd (els ! n)))"
  proof (intro allI impI)
    fix n
    assume n: "n < length els"
    have s: "snd (v ! n) = sort_samples_by_trailing_number (snd (els ! n))"
      using sort_elements_nth [OF n] by (simp add: v)
    show "mset (snd (v ! n)) = mset (snd (els ! n)) \<and>
                  (\<forall>i j. i < j \<and> j < length (snd (v ! n)) \<longrightarrow>
                     (case (sample_index (snd (v ! n) ! i), sample_index (snd (v ! n) ! j)) of
                        (Some a, Some b) \<Rightarrow> a \<le> b
                      | (Some a, None) \<Rightarrow> True
                      | (None, Some b) \<Rightarrow> False
                      | (None, None) \<Rightarrow>
                          lower (path_stem (snd (v ! n) ! i))
                            \<le> lower (path_stem (snd (v ! n) ! j)))) \<and>
                  (\<forall>x. filter (\<lambda>p. key p = x) (snd (v ! n)) =
                        filter (\<lambda>p. key p = x) (snd (els ! n)))"
      unfolding s
      using sort_samples_order [of _ _ "snd (els ! n)"]
      by (simp add: sort_samples_mset sort_samples_stable)
  qed
  show "\<exists>els. map_of kits k = Some els \<and>
               min_total_samples cfg \<le> int (sample_count els) \<and>
               (exclude_only_other cfg \<longrightarrow> \<not> is_only_other els) \<and>
               (exclude_mixed_other cfg \<longrightarrow> \<not> is_mixed_other els) \<and>
               map fst v = map fst els \<and>
               (\<forall>n < length els.
                  mset (snd (v ! n)) = mset (snd (els ! n)) \<and>
                  (\<forall>i j. i < j \<and> j < length (snd (v ! n)) \<longrightarrow>
                     (case (sample_index (snd (v ! n) ! i), sample_index (snd (v ! n) ! j)) of
                        (Some a, Some b) \<Rightarrow> a \<le> b
                      | (Some a, None) \<Rightarrow> True
                      | (None, Some b) \<Rightarrow> False
                      | (None, None) \<Rightarrow>
                          lower (path_stem (snd (v ! n) ! i))
                            \<le> lower (path_stem (snd (v ! n) ! j)))) \<and>
                  (\<forall>x. filter (\<lambda>p. key p = x) (snd (v ! n)) =
                        filter (\<lambda>p. key p = x) (snd (els ! n))))"
    by (rule exI [of _ els]) (intro conjI els t cats each)
next
  fix k r
  assume a: "map_of (snd (filter_kits cfg kits)) k = Some r"
  from a obtain els where els: "map_of kits k = Some els"
    by (auto simp: filter_kits_rejected [OF assms(1)] split: option.splits)
  from a els obtain rs where rs: "fst (kit_verdict cfg els) = Some rs"
    and r: "r = \<lparr> reason = rs, rej_details = snd (kit_verdict cfg els), rej_elements = els \<rparr>"
    by (auto simp: filter_kits_rejected [OF assms(1)] split: option.splits)
  show "map_of (fst (filter_kits cfg kits)) k = None"
    using els rs by (simp add: filter_kits_valid [OF assms(1)])
  show "map_of kits k = Some (rej_elements r)" using els r by simp
  show "reason r \<in> set reason_codes"
    using kit_verdict_reason_codes [OF rs] r by simp
  show "kit_verdict cfg (rej_elements r) = (Some (reason r), rej_details r)"
    using rs r by (cases "kit_verdict cfg els") simp
qed

lemma demo_accept:
  "map_of (fst (filter_kits threshold_cfg demo_kits)) ''Demo'' =
     Some [(''kick'', [''lib/Kick Demo 1.wav'', ''lib/Kick Demo 2.wav''])]"
  by code_simp

lemma demo_junk:
  "map_of (snd (filter_kits threshold_cfg demo_kits)) ''Junk'' =
     Some \<lparr> reason = ''overflow_or_other'',
            rej_details = \<lparr> trash_needed = None, trash_capacity = None,
                            overflow = Some [], other_count = Some 1 \<rparr>,
            rej_elements = [(''other'', [''lib/Junk.wav''])] \<rparr>"
  by code_simp

lemma demo_indices:
  "sample_index ''lib/Kick Demo 1.wav'' = Some 1 \<and> sample_index ''lib/Kick Demo 2.wav'' = Some 2"
  by code_simp

lemma demo_count: "sample_count [(''kick'', [''lib/Kick Demo 2.wav'', ''lib/Kick Demo 1.wav''])] = 2"
  by (simp add: sample_count_def)

theorem accepted_kits_pass_thresholds_witness:
  "distinct (map fst demo_kits) \<and>
   distinct (map fst [(''kick'', [''lib/Kick Demo 2.wav'', ''lib/Kick Demo 1.wav''])]) \<and>
   distinct (map fst [(''other'', [''lib/Junk.wav''])]) \<and>
   map_of (fst (filter_kits threshold_cfg demo_kits)) ''Demo'' =
     Some [(''kick'', [''lib/Kick Demo 1.wav'', ''lib/Kick Demo 2.wav''])] \<and>
   min_total_samples threshold_cfg = 2 \<and>
   sample_count [(''kick'', [''lib/Kick Demo 2.wav'', ''lib/Kick Demo 1.wav''])] = 2 \<and>
   exclude_only_other threshold_cfg \<and>
   \<not> is_only_other [(''kick'', [''lib/Kick Demo 2.wav'', ''lib/Kick Demo 1.wav''])] \<and>
   exclude_mixed_other threshold_cfg \<and>
   \<not> is_mixed_other [(''kick'', [''lib/Kick Demo 2.wav'', ''lib/Kick Demo 1.wav''])] \<and>
   sample_index ''lib/Kick Demo 1.wav'' = Some 1 \<and>
   sample_index ''lib/Kick Demo 2.wav'' = Some 2 \<and>
   map_option reason (map_of (snd (filter_kits threshold_cfg demo_kits)) ''Junk'') =
     Some ''overflow_or_other'' \<and>
   ''overflow_or_other'' \<in> set reason_codes \<and>
   map_of (fst (filter_kits threshold_cfg demo_kits)) ''Junk'' = None"
proof -
  let ?demo = "[(''kick'', [''lib/Kick Demo 2.wav'', ''lib/Kick Demo 1.wav''])]"
  have d: "distinct (map fst demo_kits)" by (simp add: demo_kits_def)
  have b: "\<forall>kit \<in> set demo_kits. distinct (map fst (snd kit))" by (simp add: demo_kits_def)
  note t = accepted_kits_pass_thresholds [OF d b, of threshold_cfg]
  from t [THEN conjunct1, rule_format, OF demo_accept]
  obtain els where e1: "map_of demo_kits ''Demo'' = Some els"
    and e2: "min_total_samples threshold_cfg \<le> int (sample_count els)"
    and e3: "exclude_only_other threshold_cfg \<longrightarrow> \<not> is_only_other els"
    and e4: "exclude_mixed_other threshold_cfg \<longrightarrow> \<not> is_mixed_other els"
    by blast
  from e1 have els: "els = ?demo" by (simp add: demo_kits_def)
  have c: "exclude_only_other threshold_cfg" "exclude_mixed_other threshold_cfg"
    "min_total_samples threshold_cfg = 2"
    by (simp_all add: threshold_cfg_def)
  from e3 e4 c els have n: "\<not> is_only_other ?demo" "\<not> is_mixed_other ?demo" by simp_all
  from t [THEN conjunct2, rule_format, OF demo_junk]
  have r: "''overflow_or_other'' \<in> set reason_codes"
    and v: "map_of (fst (filter_kits threshold_cfg demo_kits)) ''Junk'' = None"
    by simp_all
  show ?thesis
    using d c n r v demo_accept demo_junk demo_indices demo_count by simp
qed

text \<open>
  The files \<open>Kick Demo 1.wav\<close> and \<open>Kick Demo 01.wav\<close> of one kit have the same trailing
  index 1. The accepted kit keeps them in the order of the scan, although the lower-cased
  base name \<open>kick demo 01\<close> is before \<open>kick demo 1\<close>: the stored list is not sorted by
  index first and base name second.
\<close>

theorem ordering_rule_sorted_counterexample:
  "map_of (fst (filter_kits (scenario_cfg ''reject'' [])
       [(''Demo'', [(''kick'', [''lib/Kick Demo 1.wav'', ''lib/Kick Demo 01.wav''])])])) ''Demo'' =
     Some [(''kick'', [''lib/Kick Demo 1.wav'', ''lib/Kick Demo 01.wav''])] \<and>
   ordering_rule_key ''lib/Kick Demo 1.wav'' = (0, 1, ''kick demo 1'') \<and>
   ordering_rule_key ''lib/Kick Demo 01.wav'' = (0, 1, ''kick demo 01'') \<and>
   \<not> sorted (map ordering_rule_key [''lib/Kick Demo 1.wav'', ''lib/Kick Demo 01.wav''])"
  by code_simp

subsection \<open>Note lists\<close>

lemma add_note_part_Inr:
  "add_note_part part N = Inr M \<Longrightarrow> \<exists>xs. parse_note_part part = Inr xs \<and> M = N \<union> set xs"
  by (auto simp: add_note_part_def split: sum.splits)

lemma fold_add_note_part:
  "fold_err add_note_part parts N = Inr N' \<Longrightarrow>
     (\<forall>part \<in> set parts. \<exists>xs. parse_note_part part = Inr xs) \<and>
     N' = N \<union> {n. \<exists>part \<in> set parts. \<exists>xs. parse_note_part part = Inr xs \<and> n \<in> set xs} \<and>
     (finite N \<longrightarrow> finite N')"
proof (induction parts arbitrary: N)
  case Nil
  then show ?case by simp
next
  case (Cons p ps)
  from Cons.prems obtain M where M: "add_note_part p N = Inr M"
    and rest: "fold_err add_note_part ps M = Inr N'"
    by (simp split: sum.splits)
  from add_note_part_Inr [OF M] obtain xs where xs: "parse_note_part p = Inr xs"
    and MN: "M = N \<union> set xs" by blast
  note ih = Cons.IH [OF rest]
  have a: "\<forall>part \<in> set (p # ps). \<exists>xs. parse_note_part part = Inr xs"
    using ih xs by simp
  have b: "N' = N \<union> {n. \<exists>part \<in> set (p # ps). \<exists>xs. parse_note_part part = Inr xs \<and> n \<in> set xs}"
    using ih xs MN by auto
  from ih have "finite M \<longrightarrow> finite N'" by blast
  then have c: "finite N \<longrightarrow> finite N'" unfolding MN by simp
  from a b c show ?case by blast
qed

lemma parse_note_part_range:
  assumes "CHR ''-'' \<in> set part" and "parse_note_part part = Inr xs"
  shows "\<exists>a b. py_int (fst (split_first (CHR ''-'') part)) = Inr a \<and>
               py_int (snd (split_first (CHR ''-'') part)) = Inr b \<and> xs = [a .. b]"
  using assms by (auto simp: parse_note_part_def split_beta split: sum.splits)

lemma parse_note_part_single:
  assumes "CHR ''-'' \<notin> set part" and "parse_note_part part = Inr xs"
  shows "\<exists>n. py_int part = Inr n \<and> xs = [n]"
  using assms by (auto simp: parse_note_part_def split: sum.splits)

lemma parse_midi_note_list_sound:
  assumes "parse_midi_note_list spec = Inr ns"
  shows "sorted ns \<and> distinct ns \<and>
         (\<forall>part \<in> set (stripped_parts (CHR '','') spec).
            if CHR ''-'' \<in> set part
            then \<exists>a b. py_int (fst (split_first (CHR ''-'') part)) = Inr a \<and>
                       py_int (snd (split_first (CHR ''-'') part)) = Inr b \<and>
                       {a .. b} \<subseteq> set ns
            else \<exists>n. py_int part = Inr n \<and> n \<in> set ns) \<and>
         (\<forall>n \<in> set ns. \<exists>part \<in> set (stripped_parts (CHR '','') spec).
            \<exists>xs. parse_note_part part = Inr xs \<and> n \<in> set xs)"
proof -
  let ?parts = "stripped_parts (CHR '','') spec"
  from assms obtain N where N: "fold_err add_note_part ?parts {} = Inr N"
    and ns: "ns = sorted_list_of_set N"
    by (auto simp: parse_midi_note_list_def split: sum.splits)
  note f = fold_add_note_part [OF N]
  from f have "finite ({}::int set) \<longrightarrow> finite N" by blast
  then have fin: "finite N" by simp
  have set_ns: "set ns = N" using fin ns by simp
  have all: "\<forall>part \<in> set ?parts. \<exists>xs. parse_note_part part = Inr xs \<and> set xs \<subseteq> N"
    using f by blast
  have p3: "\<forall>part \<in> set ?parts.
            if CHR ''-'' \<in> set part
            then \<exists>a b. py_int (fst (split_first (CHR ''-'') part)) = Inr a \<and>
                       py_int (snd (split_first (CHR ''-'') part)) = Inr b \<and>
                       {a .. b} \<subseteq> set ns
            else \<exists>n. py_int part = Inr n \<and> n \<in> set ns"
  proof
    fix part assume "part \<in> set ?parts"
    with all obtain xs where xs: "parse_note_part part = Inr xs" "set xs \<subseteq> N" by blast
    show "if CHR ''-'' \<in> set part
            then \<exists>a b. py_int (fst (split_first (CHR ''-'') part)) = Inr a \<and>
                       py_int (snd (split_first (CHR ''-'') part)) = Inr b \<and>
                       {a .. b} \<subseteq> set ns
            else \<exists>n. py_int part = Inr n \<and> n \<in> set ns"
    proof (cases "CHR ''-'' \<in> set part")
      case True
      from parse_note_part_range [OF True xs(1)] xs(2) show ?thesis
        using True set_ns by auto
    next
      case False
      from parse_note_part_single [OF False xs(1)] xs(2) show ?thesis
        using False set_ns by auto
    qed
  qed
  have p4: "\<forall>n \<in> set ns. \<exists>part \<in> set ?parts. \<exists>xs. parse_note_part part = Inr xs \<and> n \<in> set xs"
    using f set_ns by auto
  have "sorted ns" "distinct ns" using ns by simp_all
  with p3 p4 show ?thesis by blast
qed

lemma digits_ok_chars: "digits_ok b \<Longrightarrow> \<forall>c \<in> set b. is_digit c \<or> c = CHR ''_''"
proof (induction b rule: digits_ok.induct)
  case 1
  then show ?case by simp
next
  case (2 c)
  then show ?case by simp
next
  case (3 c d r)
  show ?case
  proof (cases "d = CHR ''_''")
    case True
    with 3 show ?thesis by (cases r) auto
  next
    case False
    with 3 show ?thesis by auto
  qed
qed

lemma dash_not_digit: "\<not> is_digit (CHR ''-'')"
  by (simp add: is_digit_def)

lemma py_int_no_inner_dash:
  assumes "py_int t = Inr n"
  shows "CHR ''-'' \<notin> set (tl (int_strip t))"
proof -
  let ?t = "int_strip t"
  let ?body = "if ?t \<noteq> [] \<and> (hd ?t = CHR ''-'' \<or> hd ?t = CHR ''+'') then tl ?t else ?t"
  have "\<not> digits_ok ?body \<Longrightarrow> py_int t = Inl ValueError"
    by (simp add: py_int_def Let_def)
  with assms have ok: "digits_ok ?body" by (cases "digits_ok ?body") simp_all
  from digits_ok_chars [OF ok] dash_not_digit have nb: "CHR ''-'' \<notin> set ?body" by auto
  show ?thesis
  proof (cases "?t \<noteq> [] \<and> (hd ?t = CHR ''-'' \<or> hd ?t = CHR ''+'')")
    case True
    with nb show ?thesis by simp
  next
    case False
    with nb have "CHR ''-'' \<notin> set ?t" by simp
    then show ?thesis by (cases ?t) auto
  qed
qed

lemma dropWhile_hd_id: "xs \<noteq> [] \<Longrightarrow> \<not> P (hd xs) \<Longrightarrow> dropWhile P xs = xs"
  by (cases xs) auto

lemma strip_idem: "strip (strip s) = strip s"
proof (cases "strip s = []")
  case True
  have "strip [] = []" by (simp add: strip_def)
  with True show ?thesis by simp
next
  case False
  let ?u = "strip s"
  have h: "\<not> is_space (hd ?u)" using False by (rule strip_hd)
  have l: "\<not> is_space (last ?u)" using False by (rule strip_last)
  have d1: "dropWhile is_space ?u = ?u" using False h by (rule dropWhile_hd_id)
  have r: "rev ?u \<noteq> []" using False by simp
  have "hd (rev ?u) = last ?u" using False by (simp add: hd_rev)
  with l have "\<not> is_space (hd (rev ?u))" by simp
  with r have d2: "dropWhile is_space (rev ?u) = rev ?u" by (rule dropWhile_hd_id)
  show ?thesis
    by (subst strip_def) (simp only: d1 d2 rev_rev_ident)
qed

lemma stripped_parts_stripped: "t \<in> set (stripped_parts sep s) \<Longrightarrow> strip t = t"
  by (auto simp: stripped_parts_def strip_idem)

lemma int_space_is_space: "is_int_space c \<Longrightarrow> is_space c"
  by (auto simp: is_int_space_def is_space_def Let_def)

lemma int_strip_stripped:
  assumes "strip t = t"
  shows "int_strip t = t"
proof (cases "t = []")
  case True
  then show ?thesis by (simp add: int_strip_def)
next
  case False
  then have ne: "strip t \<noteq> []" using assms by simp
  have h: "\<not> is_space (hd t)" using strip_hd [OF ne] assms by simp
  have l: "\<not> is_space (last t)" using strip_last [OF ne] assms by simp
  from h have h': "\<not> is_int_space (hd t)" using int_space_is_space by blast
  from l have l': "\<not> is_int_space (last t)" using int_space_is_space by blast
  have d1: "dropWhile is_int_space t = t" using False h' by (rule dropWhile_hd_id)
  have r: "rev t \<noteq> []" using False by simp
  have "hd (rev t) = last t" using False by (simp add: hd_rev)
  with l' have "\<not> is_int_space (hd (rev t))" by simp
  with r have d2: "dropWhile is_int_space (rev t) = rev t" by (rule dropWhile_hd_id)
  show ?thesis by (subst int_strip_def) (simp only: d1 d2 rev_rev_ident)
qed

lemma map_err_Inr:
  "map_err f xs = Inr ys \<Longrightarrow> \<forall>x \<in> set xs. \<exists>y. f x = Inr y"
  by (induction xs arbitrary: ys) (auto split: sum.splits)

lemma stripped_parts_Nil: "stripped_parts sep [] = []"
  by (simp add: stripped_parts_def strip_def)

lemma parse_mapping_line_notes:
  assumes "parse_mapping_line raw = Inr (Some entry)" and "midi_notes entry = Some ms"
  shows "map_err py_int (note_tokens raw) = Inr ms"
proof -
  let ?line = "strip raw"
  let ?syns = "stripped_parts (CHR ''/'') (lower (strip (fst (split_first (CHR '':'') ?line))))"
  let ?r = "strip (snd (split_first (CHR '':'') ?line))"
  have live: "\<not> (?line = [] \<or> starts_with ''#'' ?line)"
  proof
    assume "?line = [] \<or> starts_with ''#'' ?line"
    then have "parse_mapping_line raw = Inr None" by (simp add: parse_mapping_line_def Let_def)
    with assms(1) show False by simp
  qed
  have colon: "CHR '':'' \<in> set ?line"
  proof (rule ccontr)
    assume n: "CHR '':'' \<notin> set ?line"
    let ?s = "stripped_parts (CHR ''/'') (lower (strip ?line))"
    have "parse_mapping_line raw =
            (if ?s = [] then Inl IndexError
             else Inr (Some \<lparr> canonical = hd ?s, synonyms = ?s, midi_notes = None \<rparr>))"
      using live n by (simp add: parse_mapping_line_def Let_def)
    with assms show False by (cases "?s = []") auto
  qed
  have unfold: "parse_mapping_line raw =
      (if ?syns = [] then Inl IndexError
       else if ?r = [] then
         Inr (Some \<lparr> canonical = hd ?syns, synonyms = ?syns, midi_notes = Some [] \<rparr>)
       else (case map_err py_int (stripped_parts (CHR '','') ?r) of
               Inl e \<Rightarrow> Inl e
             | Inr ns \<Rightarrow>
                 Inr (Some \<lparr> canonical = hd ?syns, synonyms = ?syns, midi_notes = Some ns \<rparr>)))"
    using live colon by (simp add: parse_mapping_line_def Let_def)
  have nt: "note_tokens raw = stripped_parts (CHR '','') ?r" by (simp add: note_tokens_def)
  have sy: "?syns \<noteq> []"
  proof
    assume "?syns = []"
    with unfold have "parse_mapping_line raw = Inl IndexError" by simp
    with assms(1) show False by simp
  qed
  show ?thesis
  proof (cases "?r = []")
    case True
    with unfold sy have "parse_mapping_line raw =
        Inr (Some \<lparr> canonical = hd ?syns, synonyms = ?syns, midi_notes = Some [] \<rparr>)"
      by simp
    with assms have "ms = []" by auto
    moreover have "note_tokens raw = []" unfolding nt True by (rule stripped_parts_Nil)
    ultimately show ?thesis by simp
  next
    case False
    show ?thesis
    proof (cases "map_err py_int (stripped_parts (CHR '','') ?r)")
      case (Inl e)
      with unfold sy False have "parse_mapping_line raw = Inl e" by simp
      with assms(1) show ?thesis by simp
    next
      case (Inr ns)
      with unfold sy False have "parse_mapping_line raw =
          Inr (Some \<lparr> canonical = hd ?syns, synonyms = ?syns, midi_notes = Some ns \<rparr>)"
        by simp
      with assms have "ms = ns" by auto
      with Inr nt show ?thesis by simp
    qed
  qed
qed

lemma parse_mapping_line_no_range:
  assumes "parse_mapping_line raw = Inr (Some entry)" and "midi_notes entry = Some ms"
  shows "\<forall>t \<in> set (note_tokens raw). CHR ''-'' \<notin> set (tl t)"
proof
  fix t assume t: "t \<in> set (note_tokens raw)"
  from map_err_Inr [OF parse_mapping_line_notes [OF assms]] t
  obtain n where "py_int t = Inr n" by blast
  from py_int_no_inner_dash [OF this] have "CHR ''-'' \<notin> set (tl (int_strip t))" .
  moreover have "strip t = t" using t unfolding note_tokens_def by (rule stripped_parts_stripped)
  then have "int_strip t = t" by (rule int_strip_stripped)
  ultimately show "CHR ''-'' \<notin> set (tl t)" by simp
qed

text \<open>
  Claim C9 (amended). The parser of a note specification, \<open>parse_midi_note_list\<close> (it
  reads the trash-note option), returns a sorted list without duplicates; every token
  \<open>a-b\<close> of the specification contributes all integers from \<open>a\<close> to \<open>b\<close> inclusive,
  every other token its integer, and nothing else is in the list. The parser of the
  mapping file has no ranges: the notes of a line it accepts are the integers of the note
  tokens in the written order, and no note token has a dash after its first character.
\<close>

theorem note_range_expansion:
  "(parse_midi_note_list spec = Inr ns \<longrightarrow>
      sorted ns \<and> distinct ns \<and>
            (\<forall>part \<in> set (stripped_parts (CHR '','') spec).
               if CHR ''-'' \<in> set part
               then \<exists>a b. py_int (fst (split_first (CHR ''-'') part)) = Inr a \<and>
                          py_int (snd (split_first (CHR ''-'') part)) = Inr b \<and>
                          {a .. b} \<subseteq> set ns
               else \<exists>n. py_int part = Inr n \<and> n \<in> set ns) \<and>
            (\<forall>n \<in> set ns. \<exists>part \<in> set (stripped_parts (CHR '','') spec).
               \<exists>xs. parse_note_part part = Inr xs \<and> n \<in> set xs)) \<and>
   (parse_mapping_line raw = Inr (Some entry) \<and> midi_notes entry = Some ms \<longrightarrow>
      map_err py_int (note_tokens raw) = Inr ms \<and>
      (\<forall>t \<in> set (note_tokens raw). CHR ''-'' \<notin> set (tl t)))"
proof (rule conjI)
  show "parse_midi_note_list spec = Inr ns \<longrightarrow>
      sorted ns \<and> distinct ns \<and>
            (\<forall>part \<in> set (stripped_parts (CHR '','') spec).
               if CHR ''-'' \<in> set part
               then \<exists>a b. py_int (fst (split_first (CHR ''-'') part)) = Inr a \<and>
                          py_int (snd (split_first (CHR ''-'') part)) = Inr b \<and>
                          {a .. b} \<subseteq> set ns
               else \<exists>n. py_int part = Inr n \<and> n \<in> set ns) \<and>
            (\<forall>n \<in> set ns. \<exists>part \<in> set (stripped_parts (CHR '','') spec).
               \<exists>xs. parse_note_part part = Inr xs \<and> n \<in> set xs)"
    by (rule impI) (rule parse_midi_note_list_sound)
next
  show "parse_mapping_line raw = Inr (Some entry) \<and> midi_notes entry = Some ms \<longrightarrow>
      map_err py_int (note_tokens raw) = Inr ms \<and>
      (\<forall>t \<in> set (note_tokens raw). CHR ''-'' \<notin> set (tl t))"
  proof (rule impI)
    assume a: "parse_mapping_line raw = Inr (Some entry) \<and> midi_notes entry = Some ms"
    then have p: "parse_mapping_line raw = Inr (Some entry)"
      and m: "midi_notes entry = Some ms"
      by simp_all
    have x: "map_err py_int (note_tokens raw) = Inr ms"
      using p m by (rule parse_mapping_line_notes)
    have y: "\<forall>t \<in> set (note_tokens raw). CHR ''-'' \<notin> set (tl t)"
      using p m by (rule parse_mapping_line_no_range)
    from x y show "map_err py_int (note_tokens raw) = Inr ms \<and>
      (\<forall>t \<in> set (note_tokens raw). CHR ''-'' \<notin> set (tl t))" by (rule conjI)
  qed
qed

lemma trash_default: "parse_midi_note_list ''82-85, 90,84 , 83-86'' = Inr [82, 83, 84, 85, 86, 90]"
  by code_simp

lemma trash_default_parts:
  "stripped_parts (CHR '','') ''82-85, 90,84 , 83-86'' = [''82-85'', ''90'', ''84'', ''83-86'']"
  by code_simp

text \<open>
  The separator U+001C is whitespace for \<open>str.strip()\<close> and not for \<open>int()\<close>: at the
  end of a part it is stripped with the part, and inside a range it makes \<open>int\<close> raise
  \<open>ValueError\<close>.
\<close>

lemma separator_in_note_list:
  "parse_midi_note_list [CHR ''1'', CHR 0x1C] = Inr [1] \<and>
   parse_midi_note_list [CHR ''1'', CHR 0x1C, CHR ''-'', CHR ''3''] = Inl ValueError \<and>
   parse_midi_note_list ''1 - 3'' = Inr [1, 2, 3]"
  by code_simp

lemma mapping_line_example:
  "parse_mapping_line ''kick:38,36,36'' =
     Inr (Some \<lparr> canonical = ''kick'', synonyms = [''kick''], midi_notes = Some [38, 36, 36] \<rparr>)"
  by code_simp

theorem note_range_expansion_witness:
  "parse_midi_note_list ''82-85, 90,84 , 83-86'' = Inr [82, 83, 84, 85, 86, 90] \<and>
   ''82-85'' \<in> set (stripped_parts (CHR '','') ''82-85, 90,84 , 83-86'') \<and>
   CHR ''-'' \<in> set ''82-85'' \<and>
   sorted [82, 83, 84, 85, 86, 90 :: int] \<and>
   (\<exists>a b. py_int (fst (split_first (CHR ''-'') ''82-85'')) = Inr a \<and>
          py_int (snd (split_first (CHR ''-'') ''82-85'')) = Inr b \<and>
          {a .. b} \<subseteq> set [82, 83, 84, 85, 86, 90]) \<and>
   map_err py_int (note_tokens ''kick:38,36,36'') = Inr [38, 36, 36]"
proof -
  note t = note_range_expansion [of "''82-85, 90,84 , 83-86''" "[82, 83, 84, 85, 86, 90]"
      "''kick:38,36,36''"
      "\<lparr> canonical = ''kick'', synonyms = [''kick''], midi_notes = Some [38, 36, 36] \<rparr>"
      "[38, 36, 36]"]
  note t1 = t [THEN conjunct1, rule_format, OF trash_default]
  have m: "''82-85'' \<in> set (stripped_parts (CHR '','') ''82-85, 90,84 , 83-86'')"
    by (simp add: trash_default_parts)
  have d: "CHR ''-'' \<in> set ''82-85''" by simp
  from t1 have "\<forall>part \<in> set (stripped_parts (CHR '','') ''82-85, 90,84 , 83-86'').
            if CHR ''-'' \<in> set part
            then \<exists>a b. py_int (fst (split_first (CHR ''-'') part)) = Inr a \<and>
                       py_int (snd (split_first (CHR ''-'') part)) = Inr b \<and>
                       {a .. b} \<subseteq> set [82, 83, 84, 85, 86, 90]
            else \<exists>n. py_int part = Inr n \<and> n \<in> set [82, 83, 84, 85, 86, 90]"
    by blast
  from this [rule_format, OF m] d
  have r: "\<exists>a b. py_int (fst (split_first (CHR ''-'') ''82-85'')) = Inr a \<and>
          py_int (snd (split_first (CHR ''-'') ''82-85'')) = Inr b \<and>
          {a .. b} \<subseteq> set [82, 83, 84, 85, 86, 90]"
    by simp
  from t1 have s: "sorted [82, 83, 84, 85, 86, 90 :: int]" by blast
  from t [THEN conjunct2] mapping_line_example
  have k: "map_err py_int (note_tokens ''kick:38,36,36'') = Inr [38, 36, 36]" by simp
  from trash_default m d r s k show ?thesis by blast
qed

text \<open>
  The mapping file parser on a line whose right side is \<open>36-38\<close> raises \<open>ValueError\<close>,
  and on \<open>38,36,36\<close> it keeps the order and the duplicate; the note-list parser expands
  \<open>36-38\<close>.
\<close>

theorem mapping_note_range_counterexample:
  "parse_mapping_file [''kick:36-38''] = Inl ValueError \<and>
   parse_mapping_file [''kick:38,36,36''] =
     Inr [(''kick'', \<lparr> canonical = ''kick'', synonyms = [''kick''],
                        midi_notes = Some [38, 36, 36] \<rparr>)] \<and>
   parse_midi_note_list ''36-38'' = Inr [36, 37, 38]"
  by code_simp

subsection \<open>The trash pool\<close>

lemma samples_at_push:
  "samples_at (push h c st) n = (if n = h then samples_at st h @ c else samples_at st n)"
  by (simp add: samples_at_def push_def dict_get_def map_of_dict_set)

lemma push_fields [simp]:
  "trash_pool (push h c st) = trash_pool st" "warnings (push h c st) = warnings st"
  by (simp_all add: push_def)

lemma samples_at_pool_update [simp]:
  "samples_at (st \<lparr> trash_pool := t \<rparr>) n = samples_at st n"
  by (simp add: samples_at_def)

lemma loop_stop:
  "\<not> (idx < length samples \<and> trash_pool st \<noteq> []) \<Longrightarrow> push_trash_loop samples idx st = (idx, st)"
  by (subst push_trash_loop.simps) auto

lemma loop_full:
  assumes "idx < length samples" and "trash_pool st = h # t" and "8 \<le> length (samples_at st h)"
  shows "push_trash_loop samples idx st = push_trash_loop samples idx (st \<lparr> trash_pool := t \<rparr>)"
  using assms by (subst push_trash_loop.simps) (simp add: LAYER_LIMIT_PER_PAD_def Let_def)

lemma loop_step:
  assumes "idx < length samples" and "trash_pool st = h # t" and "length (samples_at st h) < 8"
  shows "push_trash_loop samples idx st =
           push_trash_loop samples
             (idx + length (take (8 - length (samples_at st h)) (drop idx samples)))
             (if 8 \<le> length (samples_at st h) +
                       length (take (8 - length (samples_at st h)) (drop idx samples))
              then (push h (take (8 - length (samples_at st h)) (drop idx samples)) st)
                     \<lparr> trash_pool := t \<rparr>
              else push h (take (8 - length (samples_at st h)) (drop idx samples)) st)"
proof -
  have n: "nat (int (8::nat) - int (length (samples_at st h))) = 8 - length (samples_at st h)"
    by simp
  have s: "\<not> int (8::nat) - int (length (samples_at st h)) \<le> 0"
    using assms(3) by simp
  show ?thesis
    by (subst push_trash_loop.simps)
       (simp only: assms(1,2) LAYER_LIMIT_PER_PAD_def Let_def samples_at_push n s
          list.sel push_fields if_True if_False simp_thms length_append not_Cons_self2
          list.distinct)
qed

lemma loop_fill:
  assumes "idx < length samples" and "trash_pool st = h # t" and "length (samples_at st h) < 8"
    and "taken = take (8 - length (samples_at st h)) (drop idx samples)"
    and "8 \<le> length (samples_at st h) + length taken"
  shows "push_trash_loop samples idx st =
           push_trash_loop samples (idx + length taken) ((push h taken st) \<lparr> trash_pool := t \<rparr>)"
  using assms(5) unfolding loop_step [OF assms(1-3)] assms(4) by (simp only: if_True)

lemma loop_last:
  assumes "idx < length samples" and "trash_pool st = h # t" and "length (samples_at st h) < 8"
    and "taken = take (8 - length (samples_at st h)) (drop idx samples)"
    and "length (samples_at st h) + length taken < 8"
  shows "push_trash_loop samples idx st = (length samples, push h taken st)"
    and "idx + length taken = length samples"
proof -
  show e: "idx + length taken = length samples"
    using assms by (auto simp: min_def split: if_splits)
  have n: "\<not> 8 \<le> length (samples_at st h) + length taken"
    using assms(5) by simp
  have "push_trash_loop samples idx st =
          push_trash_loop samples (idx + length taken) (push h taken st)"
    using n unfolding loop_step [OF assms(1-3)] assms(4) by (simp only: if_False)
  also have "\<dots> = (length samples, push h taken st)"
    unfolding e by (rule loop_stop) simp
  finally show "push_trash_loop samples idx st = (length samples, push h taken st)" .
qed

lemma push_trash_loop_cases [case_names stop full fill last]:
  assumes stop: "\<And>idx st. \<not> (idx < length samples \<and> trash_pool st \<noteq> []) \<Longrightarrow> P idx st"
    and full: "\<And>idx st h t. idx < length samples \<Longrightarrow> trash_pool st = h # t \<Longrightarrow>
                 8 \<le> length (samples_at st h) \<Longrightarrow> P idx (st \<lparr> trash_pool := t \<rparr>) \<Longrightarrow> P idx st"
    and fill: "\<And>idx st h t taken. idx < length samples \<Longrightarrow> trash_pool st = h # t \<Longrightarrow>
                 length (samples_at st h) < 8 \<Longrightarrow>
                 taken = take (8 - length (samples_at st h)) (drop idx samples) \<Longrightarrow>
                 taken \<noteq> [] \<Longrightarrow>
                 8 \<le> length (samples_at st h) + length taken \<Longrightarrow>
                 P (idx + length taken) ((push h taken st) \<lparr> trash_pool := t \<rparr>) \<Longrightarrow> P idx st"
    and last: "\<And>idx st h t taken. idx < length samples \<Longrightarrow> trash_pool st = h # t \<Longrightarrow>
                 length (samples_at st h) < 8 \<Longrightarrow>
                 taken = take (8 - length (samples_at st h)) (drop idx samples) \<Longrightarrow>
                 taken \<noteq> [] \<Longrightarrow>
                 length (samples_at st h) + length taken < 8 \<Longrightarrow> P idx st"
  shows "P idx st"
proof (induction "(length samples - idx) + length (trash_pool st)" arbitrary: idx st rule: less_induct)
  case less
  show ?case
  proof (cases "idx < length samples \<and> trash_pool st \<noteq> []")
    case False
    then show ?thesis by (rule stop)
  next
    case True
    then obtain h t where ht: "trash_pool st = h # t" by (cases "trash_pool st") auto
    from True have lt: "idx < length samples" by simp
    show ?thesis
    proof (cases "8 \<le> length (samples_at st h)")
      case True
      have "P idx (st \<lparr> trash_pool := t \<rparr>)"
        by (rule less) (simp add: ht)
      with lt ht True show ?thesis by (rule full)
    next
      case False
      then have f: "length (samples_at st h) < 8" by simp
      define taken where "taken = take (8 - length (samples_at st h)) (drop idx samples)"
      have ne: "taken \<noteq> []" using lt f by (simp add: taken_def)
      show ?thesis
      proof (cases "8 \<le> length (samples_at st h) + length taken")
        case True
        have "P (idx + length taken) ((push h taken st) \<lparr> trash_pool := t \<rparr>)"
          using ne lt by (intro less) (cases taken; simp add: ht)
        with lt ht f taken_def ne True show ?thesis by (rule fill)
      next
        case False
        then have "length (samples_at st h) + length taken < 8" by simp
        with lt ht f taken_def ne show ?thesis by (rule last)
      qed
    qed
  qed
qed


lemma loop_bounds:
  "idx \<le> length samples \<Longrightarrow>
   idx \<le> fst (push_trash_loop samples idx st) \<and>
   fst (push_trash_loop samples idx st) \<le> length samples \<and>
   warnings (snd (push_trash_loop samples idx st)) = warnings st \<and>
   (fst (push_trash_loop samples idx st) < length samples \<longrightarrow>
      trash_pool (snd (push_trash_loop samples idx st)) = [])"
proof (induction idx st rule: push_trash_loop_cases [where samples = samples])
  case (stop idx st)
  then show ?case by (auto simp: loop_stop)
next
  case (full idx st h t)
  then show ?case by (simp add: loop_full [OF full(1-3)])
next
  case (fill idx st h t taken)
  have "idx + length taken \<le> length samples" using fill(1,4) by simp
  with fill(7) show ?case by (simp add: loop_fill [OF fill(1-4,6)])
next
  case (last idx st h t taken)
  show ?case using last(1) by (simp add: loop_last(1) [OF last(1-4,6)])
qed

lemma concat_map_filter_empty:
  "A h = [] \<Longrightarrow> concat (map A (filter (\<lambda>y. y \<noteq> h) xs)) = concat (map A xs)"
  by (induction xs) auto

lemma concat_map_all_empty: "\<forall>x \<in> set xs. A x = [] \<Longrightarrow> concat (map A xs) = []"
  by (induction xs) auto

lemma set_first_occurrences [simp]: "set (first_occurrences xs) = set xs"
  by (induction xs) auto

lemma loop_received:
  "idx \<le> length samples \<Longrightarrow>
   \<exists>A. (\<forall>n. samples_at (snd (push_trash_loop samples idx st)) n = samples_at st n @ A n) \<and>
       concat (map A (first_occurrences (trash_pool st))) =
         take (fst (push_trash_loop samples idx st) - idx) (drop idx samples) \<and>
       (\<forall>n. A n \<noteq> [] \<longrightarrow>
          n \<in> set (trash_pool st) \<and> length (samples_at st n) < 8 \<and>
          length (samples_at (snd (push_trash_loop samples idx st)) n) \<le> 8 \<and>
          (\<forall>m \<in> set (takeWhile (\<lambda>m. m \<noteq> n) (trash_pool st)).
             8 \<le> length (samples_at (snd (push_trash_loop samples idx st)) m)))"
proof (induction idx st rule: push_trash_loop_cases [where samples = samples])
  case (stop idx st)
  show ?case
    by (rule exI [of _ "\<lambda>n. []"]) (simp add: loop_stop [OF stop(1)] concat_map_all_empty)
next
  case (full idx st h t)
  let ?r = "push_trash_loop samples idx (st \<lparr> trash_pool := t \<rparr>)"
  have eq: "push_trash_loop samples idx st = ?r" by (rule loop_full [OF full(1-3)])
  let ?st0 = "st \<lparr> trash_pool := t \<rparr>"
  from full(4) [OF full(5)] obtain A where
    A1': "\<forall>n. samples_at (snd ?r) n = samples_at ?st0 n @ A n"
    and A2': "concat (map A (first_occurrences (trash_pool ?st0))) =
                take (fst ?r - idx) (drop idx samples)"
    and A3': "\<forall>n. A n \<noteq> [] \<longrightarrow>
          n \<in> set (trash_pool ?st0) \<and> length (samples_at ?st0 n) < 8 \<and>
          length (samples_at (snd ?r) n) \<le> 8 \<and>
          (\<forall>m \<in> set (takeWhile (\<lambda>m. m \<noteq> n) (trash_pool ?st0)).
             8 \<le> length (samples_at (snd ?r) m))"
    by blast
  have A1: "\<forall>n. samples_at (snd ?r) n = samples_at st n @ A n"
    using A1' by simp
  have A2: "concat (map A (first_occurrences t)) = take (fst ?r - idx) (drop idx samples)"
    using A2' by simp
  have A3: "\<forall>n. A n \<noteq> [] \<longrightarrow>
          n \<in> set t \<and> length (samples_at st n) < 8 \<and>
          length (samples_at (snd ?r) n) \<le> 8 \<and>
          (\<forall>m \<in> set (takeWhile (\<lambda>m. m \<noteq> n) t). 8 \<le> length (samples_at (snd ?r) m))"
    using A3' by simp
  have Ah: "A h = []" using A3 full(3) by fastforce
  have hfull: "8 \<le> length (samples_at (snd ?r) h)" using A1 full(3) by simp
  have B2: "concat (map A (first_occurrences (trash_pool st))) =
              take (fst ?r - idx) (drop idx samples)"
    using A2 Ah by (simp add: full(2) concat_map_filter_empty)
  have B3: "\<forall>n. A n \<noteq> [] \<longrightarrow>
          n \<in> set (trash_pool st) \<and> length (samples_at st n) < 8 \<and>
          length (samples_at (snd ?r) n) \<le> 8 \<and>
          (\<forall>m \<in> set (takeWhile (\<lambda>m. m \<noteq> n) (trash_pool st)).
             8 \<le> length (samples_at (snd ?r) m))"
  proof (intro allI impI)
    fix n assume n: "A n \<noteq> []"
    with Ah have nh: "n \<noteq> h" by auto
    from A3 n have "n \<in> set t" "length (samples_at st n) < 8"
      "length (samples_at (snd ?r) n) \<le> 8"
      "\<forall>m \<in> set (takeWhile (\<lambda>m. m \<noteq> n) t). 8 \<le> length (samples_at (snd ?r) m)"
      by blast+
    then show "n \<in> set (trash_pool st) \<and> length (samples_at st n) < 8 \<and>
          length (samples_at (snd ?r) n) \<le> 8 \<and>
          (\<forall>m \<in> set (takeWhile (\<lambda>m. m \<noteq> n) (trash_pool st)).
             8 \<le> length (samples_at (snd ?r) m))"
      using nh hfull by (simp add: full(2))
  qed
  show ?case unfolding eq by (rule exI [of _ A]) (intro conjI A1 B2 B3)
next
  case (fill idx st h t taken)
  let ?st1 = "(push h taken st) \<lparr> trash_pool := t \<rparr>"
  let ?r = "push_trash_loop samples (idx + length taken) ?st1"
  have eq: "push_trash_loop samples idx st = ?r" by (rule loop_fill [OF fill(1-4,6)])
  have le1: "idx + length taken \<le> length samples" using fill(1,4) by simp
  from fill(7) [OF le1] obtain A where
    A1: "\<forall>n. samples_at (snd ?r) n = samples_at ?st1 n @ A n"
    and A2': "concat (map A (first_occurrences (trash_pool ?st1))) =
               take (fst ?r - (idx + length taken)) (drop (idx + length taken) samples)"
    and A3': "\<forall>n. A n \<noteq> [] \<longrightarrow>
          n \<in> set (trash_pool ?st1) \<and> length (samples_at ?st1 n) < 8 \<and>
          length (samples_at (snd ?r) n) \<le> 8 \<and>
          (\<forall>m \<in> set (takeWhile (\<lambda>m. m \<noteq> n) (trash_pool ?st1)).
             8 \<le> length (samples_at (snd ?r) m))"
    by blast
  have A2: "concat (map A (first_occurrences t)) =
               take (fst ?r - (idx + length taken)) (drop (idx + length taken) samples)"
    using A2' by simp
  have A3: "\<forall>n. A n \<noteq> [] \<longrightarrow>
          n \<in> set t \<and> length (samples_at ?st1 n) < 8 \<and>
          length (samples_at (snd ?r) n) \<le> 8 \<and>
          (\<forall>m \<in> set (takeWhile (\<lambda>m. m \<noteq> n) t). 8 \<le> length (samples_at (snd ?r) m))"
    using A3' by simp
  have st1h: "samples_at ?st1 h = samples_at st h @ taken" by (simp add: samples_at_push)
  have st1n: "\<And>n. n \<noteq> h \<Longrightarrow> samples_at ?st1 n = samples_at st n"
    by (simp add: samples_at_push)
  have Ah: "A h = []" using A3 st1h fill(6) by fastforce
  have hlen: "length (samples_at (snd ?r) h) = length (samples_at st h) + length taken"
    using A1 Ah st1h by simp
  have tk: "length taken \<le> 8 - length (samples_at st h)" using fill(4) by simp
  let ?B = "\<lambda>n. if n = h then taken else A n"
  have B1: "\<forall>n. samples_at (snd ?r) n = samples_at st n @ ?B n"
    using A1 Ah st1h st1n by simp
  have k: "idx + length taken \<le> fst ?r"
    using loop_bounds [OF le1, of ?st1] by simp
  have tk2: "taken = take (length taken) (drop idx samples)"
    unfolding fill(4) by (simp add: min_def)
  have "concat (map ?B (first_occurrences (trash_pool st))) =
          taken @ concat (map ?B (filter (\<lambda>y. y \<noteq> h) (first_occurrences t)))"
    by (simp add: fill(2))
  also have "concat (map ?B (filter (\<lambda>y. y \<noteq> h) (first_occurrences t))) =
          concat (map A (filter (\<lambda>y. y \<noteq> h) (first_occurrences t)))"
    by (rule arg_cong [where f = concat]) (simp add: map_eq_conv)
  also have "\<dots> = concat (map A (first_occurrences t))"
    using Ah by (rule concat_map_filter_empty)
  also have "taken @ concat (map A (first_occurrences t)) =
          take (fst ?r - idx) (drop idx samples)"
  proof -
    have "take (fst ?r - idx) (drop idx samples) =
            take (length taken + (fst ?r - (idx + length taken))) (drop idx samples)"
      using k by simp
    also have "\<dots> = take (length taken) (drop idx samples) @
            take (fst ?r - (idx + length taken)) (drop (length taken) (drop idx samples))"
      by (rule take_add)
    also have "\<dots> = taken @ concat (map A (first_occurrences t))"
      using tk2 A2 by (simp add: add.commute)
    finally show ?thesis by simp
  qed
  finally have B2: "concat (map ?B (first_occurrences (trash_pool st))) =
          take (fst ?r - idx) (drop idx samples)" .
  have B3: "\<forall>n. ?B n \<noteq> [] \<longrightarrow>
          n \<in> set (trash_pool st) \<and> length (samples_at st n) < 8 \<and>
          length (samples_at (snd ?r) n) \<le> 8 \<and>
          (\<forall>m \<in> set (takeWhile (\<lambda>m. m \<noteq> n) (trash_pool st)).
             8 \<le> length (samples_at (snd ?r) m))"
  proof (intro allI impI)
    fix n assume n: "?B n \<noteq> []"
    show "n \<in> set (trash_pool st) \<and> length (samples_at st n) < 8 \<and>
          length (samples_at (snd ?r) n) \<le> 8 \<and>
          (\<forall>m \<in> set (takeWhile (\<lambda>m. m \<noteq> n) (trash_pool st)).
             8 \<le> length (samples_at (snd ?r) m))"
    proof (cases "n = h")
      case True
      then show ?thesis using fill(2,3) hlen tk by simp
    next
      case False
      with n have An: "A n \<noteq> []" by simp
      from A3 An have "n \<in> set t" "length (samples_at ?st1 n) < 8"
        "length (samples_at (snd ?r) n) \<le> 8"
        "\<forall>m \<in> set (takeWhile (\<lambda>m. m \<noteq> n) t). 8 \<le> length (samples_at (snd ?r) m)"
        by blast+
      then show ?thesis
        using False st1n [OF False] hlen fill(6) by (simp add: fill(2))
    qed
  qed
  show ?case unfolding eq by (rule exI [of _ ?B]) (intro conjI B1 B2 B3)
next
  case (last idx st h t taken)
  have eq: "push_trash_loop samples idx st = (length samples, push h taken st)"
    by (rule loop_last(1) [OF last(1-4,6)])
  have e: "idx + length taken = length samples" by (rule loop_last(2) [OF last(1-4,6)])
  have "length taken = length (drop idx samples)" using e by simp
  then have "length (drop idx samples) \<le> 8 - length (samples_at st h)"
    unfolding last(4) by simp
  then have tk: "taken = drop idx samples" unfolding last(4) by simp
  let ?B = "\<lambda>n. if n = h then taken else []"
  have B1: "\<forall>n. samples_at (push h taken st) n = samples_at st n @ ?B n"
    by (simp add: samples_at_push)
  have "concat (map ?B (first_occurrences (trash_pool st))) =
          taken @ concat (map ?B (filter (\<lambda>y. y \<noteq> h) (first_occurrences t)))"
    by (simp add: last(2))
  also have "concat (map ?B (filter (\<lambda>y. y \<noteq> h) (first_occurrences t))) = []"
    by (rule concat_map_all_empty) simp
  finally have B2: "concat (map ?B (first_occurrences (trash_pool st))) =
          take (length samples - idx) (drop idx samples)"
    using tk by simp
  have B3: "\<forall>n. ?B n \<noteq> [] \<longrightarrow>
          n \<in> set (trash_pool st) \<and> length (samples_at st n) < 8 \<and>
          length (samples_at (push h taken st) n) \<le> 8 \<and>
          (\<forall>m \<in> set (takeWhile (\<lambda>m. m \<noteq> n) (trash_pool st)).
             8 \<le> length (samples_at (push h taken st) m))"
    using last(2,3,6) by (simp add: samples_at_push)
  show ?case unfolding eq fst_conv snd_conv by (rule exI [of _ ?B]) (intro conjI B1 B2 B3)
qed


lemma loop_grows:
  assumes "idx \<le> length samples"
  shows "length (samples_at st n) \<le> length (samples_at (snd (push_trash_loop samples idx st)) n)"
proof -
  from loop_received [OF assms, of st] obtain A where
    "\<forall>n. samples_at (snd (push_trash_loop samples idx st)) n = samples_at st n @ A n"
    by blast
  then show ?thesis by simp
qed

lemma loop_dropped:
  "idx \<le> length samples \<Longrightarrow>
   \<exists>d. trash_pool st = d @ trash_pool (snd (push_trash_loop samples idx st)) \<and>
       (\<forall>n \<in> set d. 8 \<le> length (samples_at (snd (push_trash_loop samples idx st)) n))"
proof (induction idx st rule: push_trash_loop_cases [where samples = samples])
  case (stop idx st)
  show ?case by (rule exI [of _ "[]"]) (simp add: loop_stop [OF stop(1)])
next
  case (full idx st h t)
  let ?st0 = "st \<lparr> trash_pool := t \<rparr>"
  let ?r = "push_trash_loop samples idx ?st0"
  have eq: "push_trash_loop samples idx st = ?r" by (rule loop_full [OF full(1-3)])
  from full(4) [OF full(5)] obtain d where
    d1: "trash_pool ?st0 = d @ trash_pool (snd ?r)"
    and d2: "\<forall>n \<in> set d. 8 \<le> length (samples_at (snd ?r) n)"
    by blast
  have "length (samples_at ?st0 h) \<le> length (samples_at (snd ?r) h)"
    by (rule loop_grows [OF full(5)])
  then have hf: "8 \<le> length (samples_at (snd ?r) h)" using full(3) by simp
  have e1: "trash_pool st = (h # d) @ trash_pool (snd ?r)" using d1 full(2) by simp
  have e2: "\<forall>n \<in> set (h # d). 8 \<le> length (samples_at (snd ?r) n)" using d2 hf by simp
  show ?case unfolding eq by (rule exI [of _ "h # d"]) (intro conjI e1 e2)
next
  case (fill idx st h t taken)
  let ?st1 = "(push h taken st) \<lparr> trash_pool := t \<rparr>"
  let ?r = "push_trash_loop samples (idx + length taken) ?st1"
  have eq: "push_trash_loop samples idx st = ?r" by (rule loop_fill [OF fill(1-4,6)])
  have le1: "idx + length taken \<le> length samples" using fill(1,4) by simp
  from fill(7) [OF le1] obtain d where
    d1: "trash_pool ?st1 = d @ trash_pool (snd ?r)"
    and d2: "\<forall>n \<in> set d. 8 \<le> length (samples_at (snd ?r) n)"
    by blast
  have "length (samples_at ?st1 h) \<le> length (samples_at (snd ?r) h)"
    by (rule loop_grows [OF le1])
  then have hf: "8 \<le> length (samples_at (snd ?r) h)"
    using fill(6) by (simp add: samples_at_push)
  have e1: "trash_pool st = (h # d) @ trash_pool (snd ?r)" using d1 fill(2) by simp
  have e2: "\<forall>n \<in> set (h # d). 8 \<le> length (samples_at (snd ?r) n)" using d2 hf by simp
  show ?case unfolding eq by (rule exI [of _ "h # d"]) (intro conjI e1 e2)
next
  case (last idx st h t taken)
  have eq: "push_trash_loop samples idx st = (length samples, push h taken st)"
    by (rule loop_last(1) [OF last(1-4,6)])
  show ?case unfolding eq by (rule exI [of _ "[]"]) simp
qed

lemma push_trash_samples_at:
  "samples_at (push_trash samples st) n = samples_at (snd (push_trash_loop samples 0 st)) n"
  by (simp add: push_trash_def split_beta samples_at_def)

lemma push_trash_pool:
  "trash_pool (push_trash samples st) = trash_pool (snd (push_trash_loop samples 0 st))"
  by (simp add: push_trash_def split_beta)

lemma push_trash_warnings:
  "warnings (push_trash samples st) =
     (if placed samples st < length samples
      then warnings st @
             [''Dropped '' @ str_nat (length samples - placed samples st) @ '' samples (trash full)'']
      else warnings st)"
  using loop_bounds [of 0 samples st]
  by (simp add: push_trash_def split_beta placed_def)

text \<open>
  Claim C6. For every list of samples pushed to the trash pool, from any state:
  every note keeps what it held and receives a (possibly empty) list after it; the lists
  received, read along the pool in the order of its notes, are the pushed samples in
  their order, up to the number placed; a note receives samples only when it is in the
  pool, it then holds at most 8, and every note before it in the pool holds at least 8;
  the pool afterwards is the old pool without a front part whose notes all hold at least
  8, and a note that holds 8 receives nothing; and when not all samples were placed, the
  pool is empty and one warning with the number of dropped samples is appended (no
  warning otherwise).
\<close>

theorem push_trash_order_preserving:
  "(\<forall>n. samples_at (push_trash samples st) n =
          samples_at st n @ received st (push_trash samples st) n) \<and>
   concat (map (received st (push_trash samples st)) (first_occurrences (trash_pool st))) =
     take (placed samples st) samples \<and>
   (\<forall>n. received st (push_trash samples st) n \<noteq> [] \<longrightarrow>
        n \<in> set (trash_pool st) \<and>
        length (samples_at (push_trash samples st) n) \<le> 8 \<and>
        (\<forall>m \<in> set (takeWhile (\<lambda>m. m \<noteq> n) (trash_pool st)).
           8 \<le> length (samples_at (push_trash samples st) m))) \<and>
   (\<exists>dropped. trash_pool st = dropped @ trash_pool (push_trash samples st) \<and>
      (\<forall>n \<in> set dropped. 8 \<le> length (samples_at (push_trash samples st) n))) \<and>
   (\<forall>n. 8 \<le> length (samples_at st n) \<longrightarrow> received st (push_trash samples st) n = []) \<and>
   placed samples st \<le> length samples \<and>
   (if placed samples st < length samples
    then trash_pool (push_trash samples st) = [] \<and>
         warnings (push_trash samples st) =
           warnings st @
             [''Dropped '' @ str_nat (length samples - placed samples st) @ '' samples (trash full)'']
    else warnings (push_trash samples st) = warnings st)"
proof -
  let ?r = "push_trash_loop samples 0 st"
  let ?st' = "push_trash samples st"
  have z: "0 \<le> length samples" by simp
  from loop_received [OF z, of st] obtain A where
    A1: "\<forall>n. samples_at (snd ?r) n = samples_at st n @ A n"
    and A2: "concat (map A (first_occurrences (trash_pool st))) =
               take (fst ?r - 0) (drop 0 samples)"
    and A3: "\<forall>n. A n \<noteq> [] \<longrightarrow>
          n \<in> set (trash_pool st) \<and> length (samples_at st n) < 8 \<and>
          length (samples_at (snd ?r) n) \<le> 8 \<and>
          (\<forall>m \<in> set (takeWhile (\<lambda>m. m \<noteq> n) (trash_pool st)).
             8 \<le> length (samples_at (snd ?r) m))"
    by blast
  have rec: "received st ?st' = A"
    by (rule ext) (simp add: received_def push_trash_samples_at A1)
  have c1: "\<forall>n. samples_at ?st' n = samples_at st n @ received st ?st' n"
    unfolding rec using A1 by (simp add: push_trash_samples_at)
  have c2: "concat (map (received st ?st') (first_occurrences (trash_pool st))) =
     take (placed samples st) samples"
    unfolding rec using A2 by (simp add: placed_def)
  have c3: "\<forall>n. received st ?st' n \<noteq> [] \<longrightarrow>
        n \<in> set (trash_pool st) \<and>
        length (samples_at ?st' n) \<le> 8 \<and>
        (\<forall>m \<in> set (takeWhile (\<lambda>m. m \<noteq> n) (trash_pool st)).
           8 \<le> length (samples_at ?st' m))"
    unfolding rec push_trash_samples_at using A3 by blast
  have c4: "\<exists>dropped. trash_pool st = dropped @ trash_pool ?st' \<and>
      (\<forall>n \<in> set dropped. 8 \<le> length (samples_at ?st' n))"
    unfolding push_trash_samples_at push_trash_pool by (rule loop_dropped [OF z])
  have c5: "\<forall>n. 8 \<le> length (samples_at st n) \<longrightarrow> received st ?st' n = []"
    unfolding rec using A3 by fastforce
  have c6: "placed samples st \<le> length samples"
    using loop_bounds [OF z, of st] by (simp add: placed_def)
  have c7: "if placed samples st < length samples
    then trash_pool ?st' = [] \<and>
         warnings ?st' =
           warnings st @
             [''Dropped '' @ str_nat (length samples - placed samples st) @ '' samples (trash full)'']
    else warnings ?st' = warnings st"
    using loop_bounds [OF z, of st]
    by (simp add: push_trash_warnings push_trash_pool placed_def)
  from c1 c2 c3 c4 c5 c6 c7 show ?thesis by (intro conjI)
qed


lemma two_note_pool:
  "trash_pool (initial_state [] [90, 91]) = [90, 91]"
  by code_simp

lemma twenty_placed: "placed (ten_kicks @ ten_kicks) (initial_state [] [90, 91]) = 16"
  by code_simp

lemma twenty_received:
  "received (initial_state [] [90, 91])
     (push_trash (ten_kicks @ ten_kicks) (initial_state [] [90, 91])) 91 =
   [''Kick 9.wav'', ''Kick 10.wav'', ''Kick 1.wav'', ''Kick 2.wav'',
    ''Kick 3.wav'', ''Kick 4.wav'', ''Kick 5.wav'', ''Kick 6.wav'']"
  by code_simp

lemma ten_kicks_length: "length ten_kicks = 10"
  by code_simp

theorem push_trash_order_preserving_witness:
  "placed (ten_kicks @ ten_kicks) (initial_state [] [90, 91]) < length (ten_kicks @ ten_kicks) \<and>
   received (initial_state [] [90, 91])
     (push_trash (ten_kicks @ ten_kicks) (initial_state [] [90, 91])) 91 \<noteq> [] \<and>
   90 \<in> set (takeWhile (\<lambda>m. m \<noteq> 91) (trash_pool (initial_state [] [90, 91]))) \<and>
   8 \<le> length (samples_at (push_trash (ten_kicks @ ten_kicks) (initial_state [] [90, 91])) 90) \<and>
   trash_pool (push_trash (ten_kicks @ ten_kicks) (initial_state [] [90, 91])) = [] \<and>
   warnings (push_trash (ten_kicks @ ten_kicks) (initial_state [] [90, 91])) =
     warnings (initial_state [] [90, 91]) @ [''Dropped '' @ str_nat 4 @ '' samples (trash full)'']"
proof -
  let ?S = "ten_kicks @ ten_kicks"
  let ?st = "initial_state [] [90, 91]"
  note t = push_trash_order_preserving [of ?S ?st]
  have p: "placed ?S ?st < length ?S" by (simp add: twenty_placed ten_kicks_length)
  have r: "received ?st (push_trash ?S ?st) 91 \<noteq> []" by (simp add: twenty_received)
  have m: "90 \<in> set (takeWhile (\<lambda>m. m \<noteq> 91) (trash_pool ?st))"
    by (simp add: two_note_pool)
  from t have "\<forall>n. received ?st (push_trash ?S ?st) n \<noteq> [] \<longrightarrow>
        n \<in> set (trash_pool ?st) \<and>
        length (samples_at (push_trash ?S ?st) n) \<le> 8 \<and>
        (\<forall>m \<in> set (takeWhile (\<lambda>m. m \<noteq> n) (trash_pool ?st)).
           8 \<le> length (samples_at (push_trash ?S ?st) m))"
    by blast
  with r m have f: "8 \<le> length (samples_at (push_trash ?S ?st) 90)" by blast
  from t p have w: "trash_pool (push_trash ?S ?st) = [] \<and>
         warnings (push_trash ?S ?st) =
           warnings ?st @
             [''Dropped '' @ str_nat (length ?S - placed ?S ?st) @ '' samples (trash full)'']"
    by presburger
  have "length ?S - placed ?S ?st = 4" by (simp add: twenty_placed ten_kicks_length)
  with w p r m f show ?thesis by simp
qed

subsection \<open>The assignment of a kit\<close>

lemma distinct_dict_set:
  "distinct (map fst d) \<Longrightarrow> distinct (map fst (dict_set k v d))"
  by (induction d) (auto simp: fst_dict_set)

lemma keys_push:
  "fst ` set (note_to_samples (push n c st)) = insert n (fst ` set (note_to_samples st))"
  by (simp add: push_def fst_dict_set)

lemma distinct_push:
  "distinct (map fst (note_to_samples st)) \<Longrightarrow> distinct (map fst (note_to_samples (push n c st)))"
  by (simp add: push_def distinct_dict_set)

lemma assign_notes_frame:
  "trash_pool (snd (assign_notes ns files idx st)) = trash_pool st \<and>
   warnings (snd (assign_notes ns files idx st)) = warnings st \<and>
   fst ` set (note_to_samples (snd (assign_notes ns files idx st)))
     \<subseteq> fst ` set (note_to_samples st) \<union> set ns \<and>
   (distinct (map fst (note_to_samples st)) \<longrightarrow>
      distinct (map fst (note_to_samples (snd (assign_notes ns files idx st))))) \<and>
   (\<forall>n. n \<notin> set ns \<longrightarrow>
      samples_at (snd (assign_notes ns files idx st)) n = samples_at st n)"
proof (induction ns arbitrary: idx st)
  case Nil
  show ?case by simp
next
  case (Cons a ns)
  show ?case
  proof (cases "take LAYER_LIMIT_PER_PAD (drop idx files) = []")
    case True
    then show ?thesis by (auto simp: Let_def)
  next
    case False
    let ?c = "take LAYER_LIMIT_PER_PAD (drop idx files)"
    have eq: "assign_notes (a # ns) files idx st =
                assign_notes ns files (idx + length ?c) (push a ?c st)"
      using False by (simp add: Let_def)
    note ih = Cons.IH [of "idx + length ?c" "push a ?c st"]
    show ?thesis
      unfolding eq using ih
      by (auto simp: keys_push distinct_push samples_at_push)
  qed
qed

lemma assign_notes_bound:
  "distinct ns \<Longrightarrow>
   \<forall>n \<in> set ns.
     length (samples_at (snd (assign_notes ns files idx st)) n) \<le> length (samples_at st n) + 8"
proof (induction ns arbitrary: idx st)
  case Nil
  show ?case by simp
next
  case (Cons a ns)
  show ?case
  proof (cases "take LAYER_LIMIT_PER_PAD (drop idx files) = []")
    case True
    then show ?thesis by (simp add: Let_def)
  next
    case False
    let ?c = "take LAYER_LIMIT_PER_PAD (drop idx files)"
    let ?st1 = "push a ?c st"
    have eq: "assign_notes (a # ns) files idx st =
                assign_notes ns files (idx + length ?c) ?st1"
      using False by (simp add: Let_def)
    from Cons.prems have d: "distinct ns" and a: "a \<notin> set ns" by simp_all
    note ih = Cons.IH [OF d, of "idx + length ?c" ?st1]
    have fr: "samples_at (snd (assign_notes ns files (idx + length ?c) ?st1)) a = samples_at ?st1 a"
      using assign_notes_frame [of ns files "idx + length ?c" ?st1] a by blast
    have la: "length (samples_at ?st1 a) \<le> length (samples_at st a) + 8"
      by (simp add: samples_at_push LAYER_LIMIT_PER_PAD_def)
    have rest: "\<forall>n \<in> set ns.
        length (samples_at (snd (assign_notes ns files (idx + length ?c) ?st1)) n)
          \<le> length (samples_at st n) + 8"
    proof
      fix n assume n: "n \<in> set ns"
      with a have na: "n \<noteq> a" by auto
      from ih n have "length (samples_at (snd (assign_notes ns files (idx + length ?c) ?st1)) n)
          \<le> length (samples_at ?st1 n) + 8" by blast
      moreover have "samples_at ?st1 n = samples_at st n" using na by (simp add: samples_at_push)
      ultimately show "length (samples_at (snd (assign_notes ns files (idx + length ?c) ?st1)) n)
          \<le> length (samples_at st n) + 8" by simp
    qed
    show ?thesis unfolding eq using fr la rest by simp
  qed
qed


lemma loop_keys:
  "fst ` set (note_to_samples (snd (push_trash_loop samples idx st)))
     \<subseteq> fst ` set (note_to_samples st) \<union> set (trash_pool st) \<and>
   (distinct (map fst (note_to_samples st)) \<longrightarrow>
      distinct (map fst (note_to_samples (snd (push_trash_loop samples idx st)))))"
proof (induction idx st rule: push_trash_loop_cases [where samples = samples])
  case (stop idx st)
  show ?case by (simp add: loop_stop [OF stop(1)])
next
  case (full idx st h t)
  show ?case
    unfolding loop_full [OF full(1-3)] using full(4) by (auto simp: full(2))
next
  case (fill idx st h t taken)
  show ?case
    unfolding loop_fill [OF fill(1-4,6)] using fill(7)
    by (auto simp: fill(2) keys_push distinct_push)
next
  case (last idx st h t taken)
  show ?case
    unfolding loop_last(1) [OF last(1-4,6)]
    by (auto simp: last(2) keys_push distinct_push)
qed

lemma push_trash_note_to_samples:
  "note_to_samples (push_trash samples st) = note_to_samples (snd (push_trash_loop samples 0 st))"
  by (simp add: push_trash_def split_beta)

lemma push_trash_keys:
  "fst ` set (note_to_samples (push_trash samples st))
     \<subseteq> fst ` set (note_to_samples st) \<union> set (trash_pool st)"
  unfolding push_trash_note_to_samples using loop_keys [of samples 0 st] by blast

lemma push_trash_distinct:
  "distinct (map fst (note_to_samples st)) \<Longrightarrow>
   distinct (map fst (note_to_samples (push_trash samples st)))"
  unfolding push_trash_note_to_samples using loop_keys [of samples 0 st] by blast

lemma push_trash_pool_subset:
  "set (trash_pool (push_trash samples st)) \<subseteq> set (trash_pool st)"
proof -
  have "0 \<le> length samples" by simp
  from loop_dropped [OF this, of st] obtain d where
    "trash_pool st = d @ trash_pool (snd (push_trash_loop samples 0 st))" by blast
  then have "set (trash_pool (snd (push_trash_loop samples 0 st))) \<subseteq> set (trash_pool st)"
    by (metis set_append Un_upper2)
  then show ?thesis by (simp add: push_trash_pool)
qed

lemma push_trash_frame_bound:
  "(n \<notin> set (trash_pool st) \<longrightarrow> samples_at (push_trash samples st) n = samples_at st n) \<and>
   (length (samples_at st n) \<le> 8 \<longrightarrow> length (samples_at (push_trash samples st) n) \<le> 8)"
proof -
  let ?r = "push_trash_loop samples 0 st"
  have z: "0 \<le> length samples" by simp
  from loop_received [OF z, of st] obtain A where
    A1: "\<forall>n. samples_at (snd ?r) n = samples_at st n @ A n"
    and A3: "\<forall>n. A n \<noteq> [] \<longrightarrow>
          n \<in> set (trash_pool st) \<and> length (samples_at st n) < 8 \<and>
          length (samples_at (snd ?r) n) \<le> 8 \<and>
          (\<forall>m \<in> set (takeWhile (\<lambda>m. m \<noteq> n) (trash_pool st)).
             8 \<le> length (samples_at (snd ?r) m))"
    by blast
  show ?thesis
  proof (cases "A n = []")
    case True
    then show ?thesis using A1 by (simp add: push_trash_samples_at)
  next
    case False
    with A3 have "n \<in> set (trash_pool st)" "length (samples_at (snd ?r) n) \<le> 8" by blast+
    then show ?thesis by (simp add: push_trash_samples_at)
  qed
qed

lemma samples_at_warnings_update [simp]:
  "samples_at (st \<lparr> warnings := w \<rparr>) n = samples_at st n"
  by (simp add: samples_at_def)

lemma assign_category_other:
  "assign_category mtable policy (''other'', files) st =
     (if policy = ''trash'' \<or> policy = ''ignore'' then push_trash files st else st)"
  by (simp add: assign_category_def)

lemma assign_category_real:
  assumes "c \<noteq> ''other''"
  shows "assign_category mtable policy (c, files) st =
     (let ns = category_notes mtable c;
          idx = fst (assign_notes ns files 0 st);
          st1 = snd (assign_notes ns files 0 st);
          overflow = drop idx files
      in if overflow \<noteq> [] then
           (if policy = ''truncate'' then
              st1 \<lparr> warnings := warnings st1 @
                [''Overflow in '' @ c @ '', truncated '' @ str_nat (length overflow)] \<rparr>
            else if policy = ''trash'' \<or> policy = ''ignore'' then push_trash overflow st1
            else st1)
         else st1)"
  using assms by (simp add: assign_category_def Let_def split_beta)

lemma assign_category_frame:
  "set (trash_pool (assign_category mtable policy (c, files) st)) \<subseteq> set (trash_pool st) \<and>
   fst ` set (note_to_samples (assign_category mtable policy (c, files) st))
     \<subseteq> fst ` set (note_to_samples st) \<union> set (category_notes mtable c) \<union> set (trash_pool st) \<and>
   (distinct (map fst (note_to_samples st)) \<longrightarrow>
      distinct (map fst (note_to_samples (assign_category mtable policy (c, files) st)))) \<and>
   (\<forall>n. n \<notin> set (category_notes mtable c) \<and> n \<notin> set (trash_pool st) \<longrightarrow>
      samples_at (assign_category mtable policy (c, files) st) n = samples_at st n)"
proof (cases "c = ''other''")
  case True
  show ?thesis
    unfolding True assign_category_other
    using push_trash_pool_subset [of files st] push_trash_keys [of files st]
      push_trash_distinct [of st files] push_trash_frame_bound [of _ st files]
    by auto
next
  case False
  let ?ns = "category_notes mtable c"
  let ?st1 = "snd (assign_notes ?ns files 0 st)"
  let ?ov = "drop (fst (assign_notes ?ns files 0 st)) files"
  note f = assign_notes_frame [of ?ns files 0 st]
  have p1: "trash_pool ?st1 = trash_pool st" using f by blast
  have k1: "fst ` set (note_to_samples ?st1) \<subseteq> fst ` set (note_to_samples st) \<union> set ?ns"
    using f by blast
  have d1: "distinct (map fst (note_to_samples st)) \<longrightarrow> distinct (map fst (note_to_samples ?st1))"
    using f by blast
  have s1: "\<forall>n. n \<notin> set ?ns \<longrightarrow> samples_at ?st1 n = samples_at st n"
    using f by blast
  have p2: "set (trash_pool (push_trash ?ov ?st1)) \<subseteq> set (trash_pool st)"
    using push_trash_pool_subset [of ?ov ?st1] p1 by simp
  have k2: "fst ` set (note_to_samples (push_trash ?ov ?st1))
      \<subseteq> fst ` set (note_to_samples st) \<union> set ?ns \<union> set (trash_pool st)"
    using push_trash_keys [of ?ov ?st1] k1 p1 by auto
  have d2: "distinct (map fst (note_to_samples st)) \<longrightarrow>
      distinct (map fst (note_to_samples (push_trash ?ov ?st1)))"
    using push_trash_distinct [of ?st1 ?ov] d1 by blast
  have s2: "\<forall>n. n \<notin> set ?ns \<and> n \<notin> set (trash_pool st) \<longrightarrow>
      samples_at (push_trash ?ov ?st1) n = samples_at st n"
    using push_trash_frame_bound [of _ ?st1 ?ov] s1 p1 by simp
  show ?thesis
    unfolding assign_category_real [OF False] Let_def
    using p1 k1 d1 s1 p2 k2 d2 s2 by auto
qed

lemma assign_category_bound:
  assumes "\<forall>n. length (samples_at st n) \<le> 8"
    and "c \<noteq> ''other'' \<longrightarrow>
           distinct (category_notes mtable c) \<and>
           (\<forall>n \<in> set (category_notes mtable c). samples_at st n = [])"
  shows "\<forall>n. length (samples_at (assign_category mtable policy (c, files) st) n) \<le> 8"
proof (cases "c = ''other''")
  case True
  show ?thesis
    unfolding True assign_category_other
    using push_trash_frame_bound [of _ st files] assms(1) by auto
next
  case False
  let ?ns = "category_notes mtable c"
  let ?st1 = "snd (assign_notes ?ns files 0 st)"
  let ?ov = "drop (fst (assign_notes ?ns files 0 st)) files"
  from assms(2) False have dn: "distinct ?ns"
    and em: "\<forall>n \<in> set ?ns. samples_at st n = []" by blast+
  have b1: "\<forall>n. length (samples_at ?st1 n) \<le> 8"
  proof
    fix n
    show "length (samples_at ?st1 n) \<le> 8"
    proof (cases "n \<in> set ?ns")
      case True
      with assign_notes_bound [OF dn, of files 0 st] em show ?thesis by fastforce
    next
      case False
      with assign_notes_frame [of ?ns files 0 st] assms(1) show ?thesis by simp
    qed
  qed
  have b2: "\<forall>n. length (samples_at (push_trash ?ov ?st1) n) \<le> 8"
    using push_trash_frame_bound [of _ ?st1 ?ov] b1 by blast
  show ?thesis
    unfolding assign_category_real [OF False] Let_def
    using b1 b2 by auto
qed


lemma mapped_notes_reserved: "mapped_notes mtable = set (reserved_notes mtable)"
  by (induction mtable) (auto simp: mapped_notes_def reserved_notes_def split: option.splits)

lemma distinct_concat_map_member:
  "distinct (concat (map f xs)) \<Longrightarrow> x \<in> set xs \<Longrightarrow> distinct (f x)"
  by (induction xs) auto

lemma distinct_concat_map_disjoint:
  "distinct (concat (map f xs)) \<Longrightarrow> x \<in> set xs \<Longrightarrow> y \<in> set xs \<Longrightarrow> x \<noteq> y \<Longrightarrow>
   set (f x) \<inter> set (f y) = {}"
proof (induction xs)
  case Nil
  then show ?case by simp
next
  case (Cons a xs)
  from Cons.prems(1) have d: "distinct (concat (map f xs))"
    and dis: "set (f a) \<inter> (\<Union>z \<in> set xs. set (f z)) = {}"
    by auto
  show ?case
  proof (cases "x = a")
    case True
    with Cons.prems have "y \<in> set xs" by auto
    with dis True show ?thesis by blast
  next
    case False
    with Cons.prems have x: "x \<in> set xs" by auto
    show ?thesis
    proof (cases "y = a")
      case True
      with dis x show ?thesis by blast
    next
      case False
      with Cons.prems have "y \<in> set xs" by auto
      with Cons.IH [OF d x] Cons.prems(4) show ?thesis by blast
    qed
  qed
qed

lemma category_notes_entry:
  "category_notes mtable c = [] \<or>
   (\<exists>e. (c, e) \<in> set mtable \<and>
      category_notes mtable c = (case midi_notes (snd (c, e)) of None \<Rightarrow> [] | Some ns \<Rightarrow> ns))"
  by (auto simp: category_notes_def split: option.splits dest: map_of_SomeD)

lemma category_notes_mapped: "set (category_notes mtable c) \<subseteq> mapped_notes mtable"
proof
  fix n
  assume a: "n \<in> set (category_notes mtable c)"
  then obtain e where e: "map_of mtable c = Some e"
    by (cases "map_of mtable c") (simp_all add: category_notes_def)
  with a obtain ns where ns: "midi_notes e = Some ns"
    by (cases "midi_notes e") (simp_all add: category_notes_def)
  from a e ns have n: "n \<in> set ns" by (simp add: category_notes_def)
  from e have "(c, e) \<in> set mtable" by (rule map_of_SomeD)
  then have "e \<in> snd ` set mtable" by force
  moreover have "n \<in> (case midi_notes e of None \<Rightarrow> {} | Some ns \<Rightarrow> set ns)"
    using ns n by simp
  ultimately show "n \<in> mapped_notes mtable" unfolding mapped_notes_def by blast
qed

lemma category_notes_distinct:
  assumes "distinct (reserved_notes mtable)"
  shows "distinct (category_notes mtable c)"
proof -
  from category_notes_entry [of mtable c] show ?thesis
  proof
    assume "category_notes mtable c = []"
    then show ?thesis by simp
  next
    assume "\<exists>e. (c, e) \<in> set mtable \<and>
      category_notes mtable c = (case midi_notes (snd (c, e)) of None \<Rightarrow> [] | Some ns \<Rightarrow> ns)"
    then obtain e where e: "(c, e) \<in> set mtable"
      and eq: "category_notes mtable c =
                 (case midi_notes (snd (c, e)) of None \<Rightarrow> [] | Some ns \<Rightarrow> ns)" by blast
    from distinct_concat_map_member [OF assms [unfolded reserved_notes_def] e]
    show ?thesis unfolding eq .
  qed
qed

lemma category_notes_disjoint:
  assumes "distinct (reserved_notes mtable)" and "c \<noteq> c'"
  shows "set (category_notes mtable c) \<inter> set (category_notes mtable c') = {}"
proof -
  from category_notes_entry [of mtable c] category_notes_entry [of mtable c']
  consider "category_notes mtable c = []" | "category_notes mtable c' = []"
    | e e' where "(c, e) \<in> set mtable" "(c', e') \<in> set mtable"
        "category_notes mtable c = (case midi_notes (snd (c, e)) of None \<Rightarrow> [] | Some ns \<Rightarrow> ns)"
        "category_notes mtable c' = (case midi_notes (snd (c', e')) of None \<Rightarrow> [] | Some ns \<Rightarrow> ns)"
    by blast
  then show ?thesis
  proof cases
    case 1 then show ?thesis by simp
  next
    case 2 then show ?thesis by simp
  next
    case 3
    have ne: "(c, e) \<noteq> (c', e')" using assms(2) by simp
    from distinct_concat_map_disjoint [OF assms(1) [unfolded reserved_notes_def] 3(1,2) ne]
    show ?thesis unfolding 3(3,4) .
  qed
qed

lemma fold_assign_keys:
  "fst ` set (note_to_samples (fold (assign_category mtable policy) kit st))
     \<subseteq> fst ` set (note_to_samples st) \<union> mapped_notes mtable \<union> set (trash_pool st) \<and>
   (distinct (map fst (note_to_samples st)) \<longrightarrow>
      distinct (map fst (note_to_samples (fold (assign_category mtable policy) kit st))))"
proof (induction kit arbitrary: st)
  case Nil
  show ?case by auto
next
  case (Cons item kit)
  obtain c files where item: "item = (c, files)" by (cases item)
  let ?st1 = "assign_category mtable policy (c, files) st"
  note f = assign_category_frame [of mtable policy c files st]
  note m = category_notes_mapped [of mtable c]
  note ih = Cons.IH [of ?st1]
  have k: "fst ` set (note_to_samples ?st1)
      \<subseteq> fst ` set (note_to_samples st) \<union> mapped_notes mtable \<union> set (trash_pool st)"
    using f m by blast
  have p: "set (trash_pool ?st1) \<subseteq> set (trash_pool st)" using f by blast
  have d: "distinct (map fst (note_to_samples st)) \<longrightarrow> distinct (map fst (note_to_samples ?st1))"
    using f by blast
  show ?case
    unfolding item fold_simps using ih k p d by blast
qed

lemma fold_assign_bound:
  assumes "distinct (reserved_notes mtable)"
  shows "distinct (map fst kit) \<Longrightarrow>
     \<forall>n. length (samples_at st n) \<le> 8 \<Longrightarrow>
     \<forall>item \<in> set kit. \<forall>n \<in> set (category_notes mtable (fst item)). samples_at st n = [] \<Longrightarrow>
     set (trash_pool st) \<inter> mapped_notes mtable = {} \<Longrightarrow>
     \<forall>n. length (samples_at (fold (assign_category mtable policy) kit st) n) \<le> 8"
proof (induction kit arbitrary: st)
  case Nil
  then show ?case by simp
next
  case (Cons item kit)
  obtain c files where item: "item = (c, files)" by (cases item)
  let ?st1 = "assign_category mtable policy (c, files) st"
  note f = assign_category_frame [of mtable policy c files st]
  have dk: "distinct (map fst kit)" and cn: "c \<notin> fst ` set kit"
    using Cons.prems(1) item by auto
  have e0: "\<forall>n \<in> set (category_notes mtable c). samples_at st n = []"
    using Cons.prems(3) item by simp
  have b1: "\<forall>n. length (samples_at ?st1 n) \<le> 8"
    by (rule assign_category_bound [OF Cons.prems(2)])
       (use e0 category_notes_distinct [OF assms] in blast)
  have e1: "\<forall>it \<in> set kit. \<forall>n \<in> set (category_notes mtable (fst it)). samples_at ?st1 n = []"
  proof (intro ballI)
    fix it n
    assume it: "it \<in> set kit" and n: "n \<in> set (category_notes mtable (fst it))"
    from it cn have ne: "c \<noteq> fst it" by auto
    from category_notes_disjoint [OF assms ne] n
    have n1: "n \<notin> set (category_notes mtable c)" by blast
    from n category_notes_mapped [of mtable "fst it"] Cons.prems(4)
    have n2: "n \<notin> set (trash_pool st)" by blast
    from f n1 n2 have "samples_at ?st1 n = samples_at st n" by blast
    also have "\<dots> = []" using Cons.prems(3) it n by simp
    finally show "samples_at ?st1 n = []" .
  qed
  have p1: "set (trash_pool ?st1) \<inter> mapped_notes mtable = {}"
    using f Cons.prems(4) by blast
  from Cons.IH [OF dk b1 e1 p1] show ?case by (simp add: item)
qed


lemma initial_state_empty: "samples_at (initial_state mtable trash) n = []"
  by (simp add: initial_state_def samples_at_def dict_get_def)

lemma initial_state_pool:
  "set (trash_pool (initial_state mtable trash)) \<inter> mapped_notes mtable = {}"
  by (auto simp: initial_state_def)

lemma dict_entry_samples_at:
  assumes "distinct (map fst (note_to_samples st))" and "(n, fs) \<in> set (note_to_samples st)"
  shows "samples_at st n = fs"
  using assms by (simp add: samples_at_def dict_get_def)

text \<open>
  Claim C2 (amended). For every kit, mapping table, policy and trash-note list, every
  note key of the assignment is a note reserved by an entry of the mapping or a member
  of the trash pool. When no note is reserved twice by the mapping (the list of all
  reserved notes has no repetition) and the kit is a dictionary (distinct categories), no
  note holds more than 8 files. A note that is reserved twice can hold more.
\<close>

theorem assignment_keys_and_capacity:
  "(\<forall>(n, fs) \<in> set (fst (assign_samples_to_notes kit mtable policy trash)).
      n \<in> mapped_notes mtable \<or> n \<in> set (trash_pool (initial_state mtable trash))) \<and>
   (distinct (map fst kit) \<and> distinct (reserved_notes mtable) \<longrightarrow>
      (\<forall>(n, fs) \<in> set (fst (assign_samples_to_notes kit mtable policy trash)).
         length fs \<le> 8))"
proof -
  let ?st0 = "initial_state mtable trash"
  let ?stF = "fold (assign_category mtable policy) kit ?st0"
  have res: "fst (assign_samples_to_notes kit mtable policy trash) = note_to_samples ?stF"
    by (simp add: assign_samples_to_notes_def Let_def)
  have k0: "fst ` set (note_to_samples ?st0) = {}" by (simp add: initial_state_def)
  have d0: "distinct (map fst (note_to_samples ?st0))" by (simp add: initial_state_def)
  note fk = fold_assign_keys [of mtable policy kit ?st0]
  from fk have "fst ` set (note_to_samples ?stF)
      \<subseteq> fst ` set (note_to_samples ?st0) \<union> mapped_notes mtable \<union> set (trash_pool ?st0)"
    by (rule conjunct1)
  then have keys: "fst ` set (note_to_samples ?stF)
      \<subseteq> mapped_notes mtable \<union> set (trash_pool ?st0)"
    unfolding k0 by simp
  have dF: "distinct (map fst (note_to_samples ?stF))"
    using fk [THEN conjunct2] d0 by (rule mp)
  have part1: "\<forall>(n, fs) \<in> set (note_to_samples ?stF).
      n \<in> mapped_notes mtable \<or> n \<in> set (trash_pool ?st0)"
  proof (intro ballI, clarify)
    fix n fs assume m: "(n, fs) \<in> set (note_to_samples ?stF)"
      and nt: "n \<notin> set (trash_pool ?st0)"
    from m have "fst (n, fs) \<in> fst ` set (note_to_samples ?stF)" by (rule imageI)
    then have "n \<in> fst ` set (note_to_samples ?stF)" by simp
    with keys have "n \<in> mapped_notes mtable \<union> set (trash_pool ?st0)" by (rule subsetD)
    with nt show "n \<in> mapped_notes mtable" by simp
  qed
  have part2: "distinct (map fst kit) \<and> distinct (reserved_notes mtable) \<longrightarrow>
      (\<forall>(n, fs) \<in> set (note_to_samples ?stF). length fs \<le> 8)"
  proof (intro impI)
    assume a: "distinct (map fst kit) \<and> distinct (reserved_notes mtable)"
    then have dk: "distinct (map fst kit)" and dr: "distinct (reserved_notes mtable)" by simp_all
    have b: "\<forall>n. length (samples_at ?stF n) \<le> 8"
      by (rule fold_assign_bound [OF dr dk])
         (simp_all add: initial_state_empty initial_state_pool)
    show "\<forall>(n, fs) \<in> set (note_to_samples ?stF). length fs \<le> 8"
    proof (intro ballI, clarify)
      fix n fs assume m: "(n, fs) \<in> set (note_to_samples ?stF)"
      from b have "length (samples_at ?stF n) \<le> 8" by (rule spec)
      then show "length fs \<le> 8" unfolding dict_entry_samples_at [OF dF m] .
    qed
  qed
  show ?thesis unfolding res by (intro conjI part1 part2)
qed

lemma scenario_assignment:
  "fst (assign_samples_to_notes [(''kick'', ten_kicks), (''other'', [''x.wav''])]
          kick_mapping ''trash'' [90, 36, 91]) =
   [(36, [''Kick 1.wav'', ''Kick 2.wav'', ''Kick 3.wav'', ''Kick 4.wav'',
          ''Kick 5.wav'', ''Kick 6.wav'', ''Kick 7.wav'', ''Kick 8.wav'']),
    (90, [''Kick 9.wav'', ''Kick 10.wav'', ''x.wav''])]"
  by code_simp

lemma scenario_reserved: "reserved_notes kick_mapping = [36]"
  by code_simp

lemma scenario_pool: "trash_pool (initial_state kick_mapping [90, 36, 91]) = [90, 91]"
  by (simp add: initial_state_def mapped_notes_reserved scenario_reserved)

theorem assignment_keys_and_capacity_witness:
  "distinct (map fst [(''kick'', ten_kicks), (''other'', [''x.wav''])]) \<and>
   distinct (reserved_notes kick_mapping) \<and>
   (90, [''Kick 9.wav'', ''Kick 10.wav'', ''x.wav'']) \<in>
     set (fst (assign_samples_to_notes [(''kick'', ten_kicks), (''other'', [''x.wav''])]
                 kick_mapping ''trash'' [90, 36, 91])) \<and>
   (90 \<in> mapped_notes kick_mapping \<or>
    90 \<in> set (trash_pool (initial_state kick_mapping [90, 36, 91]))) \<and>
   length [''Kick 9.wav'', ''Kick 10.wav'', ''x.wav''] \<le> 8"
proof -
  let ?kit = "[(''kick'', ten_kicks), (''other'', [''x.wav''])]"
  note t = assignment_keys_and_capacity [of ?kit kick_mapping "''trash''" "[90, 36, 91]"]
  have d: "distinct (map fst ?kit) \<and> distinct (reserved_notes kick_mapping)"
    by (simp add: scenario_reserved)
  have m: "(90, [''Kick 9.wav'', ''Kick 10.wav'', ''x.wav'']) \<in>
     set (fst (assign_samples_to_notes ?kit kick_mapping ''trash'' [90, 36, 91]))"
    by (simp add: scenario_assignment)
  from t m have k: "90 \<in> mapped_notes kick_mapping \<or>
    90 \<in> set (trash_pool (initial_state kick_mapping [90, 36, 91]))" by blast
  from t d m have l: "length [''Kick 9.wav'', ''Kick 10.wav'', ''x.wav''] \<le> 8" by blast
  from d m k l show ?thesis by blast
qed

text \<open>
  A mapping that lists note 36 twice for one category puts ten files under note 36, and
  a mapping that gives note 36 to two categories puts nine files under it.
\<close>

theorem repeated_note_counterexample:
  "fst (assign_samples_to_notes [(''kick'', ten_kicks)] repeated_note_mapping ''trash'' [90]) =
     [(36, [''Kick 1.wav'', ''Kick 2.wav'', ''Kick 3.wav'', ''Kick 4.wav'', ''Kick 5.wav'',
            ''Kick 6.wav'', ''Kick 7.wav'', ''Kick 8.wav'', ''Kick 9.wav'', ''Kick 10.wav''])] \<and>
   fst (assign_samples_to_notes
          [(''kick'', take 8 ten_kicks), (''snare'', [''Snare 1.wav''])]
          shared_note_mapping ''trash'' [90]) =
     [(36, [''Kick 1.wav'', ''Kick 2.wav'', ''Kick 3.wav'', ''Kick 4.wav'', ''Kick 5.wav'',
            ''Kick 6.wav'', ''Kick 7.wav'', ''Kick 8.wav'', ''Snare 1.wav''])] \<and>
   \<not> length (snd (hd (fst (assign_samples_to_notes [(''kick'', ten_kicks)]
                               repeated_note_mapping ''trash'' [90])))) \<le> 8"
  by code_simp

end
